theory Spec2Isabelle
  imports Complex_Main
begin

section \<open>The bulk downloader \<^verbatim>\<open>auto_download.py\<close>\<close>

text \<open>
  The script has three functions: \<^verbatim>\<open>download_file\<close> streams one archive into a folder,
  \<^verbatim>\<open>download_videos\<close> hands a list of page URLs to \<^verbatim>\<open>yt_dlp\<close>, and \<^verbatim>\<open>main\<close> calls both on
  two fixed URL lists. Everything they do is an effect on the outside world, so the model
  passes an explicit \<open>world\<close> (file system, console, network log) through every call and
  returns Python exceptions as the left summand of the result. What the network and
  \<^verbatim>\<open>yt_dlp\<close> answer is a parameter of the model.

  Python strings are modelled by \<open>string\<close> (their UTF-8 bytes), Python integers by \<open>int\<close>.
\<close>

subsection \<open>Exceptions\<close>

text \<open>
  The exception classes that occur. All of them derive from \<^verbatim>\<open>Exception\<close>;
  \<^verbatim>\<open>requests.ConnectionError\<close> is a \<^verbatim>\<open>RequestException\<close> but not an \<^verbatim>\<open>HTTPError\<close>.
  Interrupts of the process (\<^verbatim>\<open>KeyboardInterrupt\<close>, \<^verbatim>\<open>SystemExit\<close>) are outside the model.
\<close>

datatype exn =
    HTTPError nat          \<comment> \<open>\<^verbatim>\<open>requests.HTTPError\<close>, with the status code\<close>
  | ConnectionError        \<comment> \<open>\<^verbatim>\<open>requests.ConnectionError\<close>: no response at all\<close>
  | ValueError
  | FileExistsError
  | DownloadError          \<comment> \<open>\<^verbatim>\<open>yt_dlp.utils.DownloadError\<close>\<close>
  | RuntimeError

subsection \<open>The world: file system, console, network log\<close>

type_synonym path = string
type_synonym bytes = string

datatype node = Dir | File bytes

text \<open>
  One constructor for each message the script writes to standard output; the comment
  gives the text. \<open>Progress\<close> carries the file name and the percentage. Python
  computes the percentage as a float and prints it with two decimals; the model keeps the
  exact quotient.
\<close>

datatype out =
    InfoExists string         \<comment> \<open>\<^verbatim>\<open>[INFO] {filename} already exists - skipping.\<close>\<close>
  | InfoDownloading string    \<comment> \<open>\<^verbatim>\<open>[INFO] Downloading dataset archive from {url}\<close>\<close>
  | Progress string rat       \<comment> \<open>\<^verbatim>\<open>\r    {filename}: {percent:.2f}%\<close>\<close>
  | Newline                   \<comment> \<open>\<^verbatim>\<open>\n\<close>\<close>
  | InfoFinished string       \<comment> \<open>\<^verbatim>\<open>[INFO] Finished downloading {filename}\<close>\<close>
  | WarnNoYtDlp               \<comment> \<open>\<^verbatim>\<open>[WARNING] yt_dlp is not installed. ...\<close>\<close>
  | InfoVideo string          \<comment> \<open>\<^verbatim>\<open>[INFO] Downloading video from {url}\<close>\<close>
  | ErrorVideo string exn     \<comment> \<open>\<^verbatim>\<open>[ERROR] Failed to download {url}: {exc}\<close>\<close>
  | ErrorDataset string exn   \<comment> \<open>\<^verbatim>\<open>[ERROR] Failed to download dataset from {dataset_url}: {err}\<close>\<close>

text \<open>
  The file system is a flat map from path strings to nodes: a path names at most one node,
  and the parent structure of a path is not modelled. \<open>requested\<close> logs, in order, every URL
  for which network traffic was started.
\<close>

record world =
  fs :: "path \<rightharpoonup> node"
  stdout :: "out list"
  requested :: "string list"

definition print :: "out \<Rightarrow> world \<Rightarrow> world" where
  "print x s = s\<lparr>stdout := stdout s @ [x]\<rparr>"

definition os_path_exists :: "path \<Rightarrow> world \<Rightarrow> bool" where
  "os_path_exists p s \<longleftrightarrow> fs s p \<noteq> None"

text \<open>
  \<^verbatim>\<open>os.makedirs(d, exist_ok=True)\<close>: nothing happens when \<open>d\<close> is a directory already;
  a regular file in its place raises \<^verbatim>\<open>FileExistsError\<close>.
\<close>

definition makedirs :: "path \<Rightarrow> world \<Rightarrow> (exn + unit) \<times> world" where
  "makedirs d s =
     (case fs s d of
        None \<Rightarrow> (Inr (), s\<lparr>fs := (fs s)(d \<mapsto> Dir)\<rparr>)
      | Some Dir \<Rightarrow> (Inr (), s)
      | Some (File c) \<Rightarrow> (Inl FileExistsError, s))"

text \<open>
  \<^verbatim>\<open>open(p, 'wb')\<close> creates the file or truncates it; \<^verbatim>\<open>write\<close> appends to it. On the
  flat map the call always succeeds: the \<^verbatim>\<open>FileNotFoundError\<close> for a parent directory that
  does not exist (a name with a slash in it) and the \<^verbatim>\<open>ValueError\<close> for a NUL in the name
  are not modelled.
\<close>

definition open_wb :: "path \<Rightarrow> world \<Rightarrow> world" where
  "open_wb p s = s\<lparr>fs := (fs s)(p \<mapsto> File [])\<rparr>"

definition file_write :: "path \<Rightarrow> bytes \<Rightarrow> world \<Rightarrow> world" where
  "file_write p chunk s =
     (case fs s p of
        Some (File c) \<Rightarrow> s\<lparr>fs := (fs s)(p \<mapsto> File (c @ chunk))\<rparr>
      | _ \<Rightarrow> s)"

text \<open>\<^verbatim>\<open>posixpath.join\<close> of two components.\<close>

definition os_path_join :: "path \<Rightarrow> string \<Rightarrow> path" where
  "os_path_join a b =
     (if b \<noteq> [] \<and> hd b = CHR ''/'' then b
      else if a = [] \<or> last a = CHR ''/'' then a @ b
      else a @ ''/'' @ b)"

subsection \<open>The file name of a URL\<close>

text \<open>\<^verbatim>\<open>s.find(c)\<close> and \<^verbatim>\<open>s.rfind(c)\<close>: the first and the last index of \<open>c\<close>, or \<open>-1\<close>.\<close>

definition find :: "char \<Rightarrow> string \<Rightarrow> int" where
  "find c s = (if c \<in> set s then int (length (takeWhile (\<lambda>x. x \<noteq> c) s)) else - 1)"

definition rfind :: "char \<Rightarrow> string \<Rightarrow> int" where
  "rfind c s =
     (if c \<in> set s then int (length s) - 1 - int (length (takeWhile (\<lambda>x. x \<noteq> c) (rev s)))
      else - 1)"

text \<open>\<^verbatim>\<open>posixpath.basename\<close>: \<^verbatim>\<open>i = p.rfind('/') + 1; return p[i:]\<close>.\<close>

definition basename :: "string \<Rightarrow> string" where
  "basename p = drop (nat (rfind (CHR ''/'') p + 1)) p"

text \<open>
  \<^verbatim>\<open>urllib.parse.urlparse(url).path\<close>, as CPython 3.12 computes it. Leading control
  characters and spaces (codes 0 to 32) are dropped, and every tab, carriage return and
  line feed is removed. Then the scheme is split off at the first colon when the text
  before it starts with a letter and consists of scheme characters; an authority after
  \<^verbatim>\<open>//\<close> ends at the first of \<^verbatim>\<open>/ ? #\<close>; then the fragment, the query and, for the schemes
  that have them, the parameters of the last segment are cut off.

  For an authority with a square bracket that is no IP literal, or with characters beyond
  ASCII that normalise to a delimiter, \<^verbatim>\<open>urlparse\<close> raises \<^verbatim>\<open>ValueError\<close>; these URLs are
  outside the model, which gives them a path as well.
\<close>

definition ascii_lowercase :: string where
  "ascii_lowercase = ''abcdefghijklmnopqrstuvwxyz''"

definition ascii_uppercase :: string where
  "ascii_uppercase = ''ABCDEFGHIJKLMNOPQRSTUVWXYZ''"

definition scheme_chars :: string where
  "scheme_chars = ascii_lowercase @ ascii_uppercase @ ''0123456789+-.''"

definition uses_params :: "string list" where
  "uses_params = ['''', ''ftp'', ''hdl'', ''prospero'', ''http'', ''imap'', ''https'',
     ''shttp'', ''rtsp'', ''rtsps'', ''rtspu'', ''sip'', ''sips'', ''mms'', ''sftp'', ''tel'']"

definition lower :: "string \<Rightarrow> string" where
  "lower s = map (\<lambda>c. case map_of (zip ascii_uppercase ascii_lowercase) c of
                        Some l \<Rightarrow> l | None \<Rightarrow> c) s"

definition split_scheme :: "string \<Rightarrow> string \<times> string" where
  "split_scheme url =
     (let i = find (CHR '':'') url in
      if i > 0 \<and> hd url \<in> set (ascii_lowercase @ ascii_uppercase)
           \<and> (\<forall>c \<in> set (take (nat i) url). c \<in> set scheme_chars)
      then (lower (take (nat i) url), drop (nat i + 1) url)
      else ('''', url))"

definition netloc_end :: "char \<Rightarrow> bool" where
  "netloc_end c \<longleftrightarrow> c \<in> set ''/?#''"

definition split_netloc :: "string \<Rightarrow> string" where
  "split_netloc url =
     (if take 2 url = ''//'' then dropWhile (\<lambda>c. \<not> netloc_end c) (drop 2 url) else url)"

definition before :: "char \<Rightarrow> string \<Rightarrow> string" where
  \<comment> \<open>\<^verbatim>\<open>if c in url: url = url.split(c, 1)[0]\<close>\<close>
  "before c url = (if c \<in> set url then takeWhile (\<lambda>x. x \<noteq> c) url else url)"

definition splitparams :: "string \<Rightarrow> string" where
  "splitparams url =
     (if CHR ''/'' \<in> set url then
        (let j = nat (rfind (CHR ''/'') url); i = find (CHR '';'') (drop j url) in
         if i < 0 then url else take (j + nat i) url)
      else take (nat (find (CHR '';'') url)) url)"

definition c0_control_or_space :: "char \<Rightarrow> bool" where
  "c0_control_or_space c \<longleftrightarrow> (of_char c :: nat) \<le> 32"

definition unsafe_url_byte :: "char \<Rightarrow> bool" where
  "unsafe_url_byte c \<longleftrightarrow> c \<in> set [CHR 0x09, CHR 0x0D, CHR 0x0A]"

definition clean_url :: "string \<Rightarrow> string" where
  "clean_url url = filter (\<lambda>c. \<not> unsafe_url_byte c) (dropWhile c0_control_or_space url)"

definition urlparse_path :: "string \<Rightarrow> string" where
  "urlparse_path url =
     (let (scheme, url1) = split_scheme (clean_url url);
          url2 = split_netloc url1;
          url3 = before (CHR ''?'') (before (CHR ''#'') url2)
      in if scheme \<in> set uses_params \<and> CHR '';'' \<in> set url3 then splitparams url3 else url3)"

text \<open>
  \<^verbatim>\<open>urllib.parse.unquote\<close> works on each maximal run of ASCII characters: in a run, a
  percent sign followed by two hexadecimal digits becomes the byte they denote and any
  other percent sign stays (\<open>unquote_to_bytes\<close>); the bytes are then decoded as UTF-8 with
  \<^verbatim>\<open>errors='replace'\<close>. Characters beyond ASCII stay as they are.
\<close>

definition hex_digits :: "(char \<times> nat) list" where
  "hex_digits = zip ''0123456789abcdefABCDEF''
     [0, 1, 2, 3, 4, 5, 6, 7, 8, 9, 10, 11, 12, 13, 14, 15, 10, 11, 12, 13, 14, 15]"

fun unquote_to_bytes :: "string \<Rightarrow> bytes" where
  "unquote_to_bytes (c # h1 # h2 # rest) =
     (if c = CHR ''%'' then
        (case (map_of hex_digits h1, map_of hex_digits h2) of
           (Some a, Some b) \<Rightarrow> char_of (a * 16 + b) # unquote_to_bytes rest
         | _ \<Rightarrow> c # unquote_to_bytes (h1 # h2 # rest))
      else c # unquote_to_bytes (h1 # h2 # rest))"
| "unquote_to_bytes s = s"

text \<open>
  Decoding bytes as UTF-8 with \<^verbatim>\<open>errors='replace'\<close>, the result written in UTF-8 again:
  a well-formed sequence stays; a byte that starts no sequence, and the longest start of a
  sequence that its next byte does not continue (or that the input ends in), each become
  one U+FFFD. The second byte of a sequence is restricted further after the lead bytes
  E0, ED, F0 and F4 (no overlong forms, no surrogates, nothing beyond U+10FFFF).
\<close>

definition replacement_character :: bytes where
  "replacement_character = [CHR 0xEF, CHR 0xBF, CHR 0xBD]"

definition continuation_byte :: "char \<Rightarrow> bool" where
  "continuation_byte c \<longleftrightarrow> 0x80 \<le> (of_char c :: nat) \<and> (of_char c :: nat) < 0xC0"

definition second_byte_ok :: "char \<Rightarrow> char \<Rightarrow> bool" where
  "second_byte_ok b c \<longleftrightarrow>
     continuation_byte c
     \<and> \<not> (b = CHR 0xE0 \<and> (of_char c :: nat) < 0xA0)
     \<and> \<not> (b = CHR 0xED \<and> 0xA0 \<le> (of_char c :: nat))
     \<and> \<not> (b = CHR 0xF0 \<and> (of_char c :: nat) < 0x90)
     \<and> \<not> (b = CHR 0xF4 \<and> 0x90 \<le> (of_char c :: nat))"

fun utf8_replace :: "bytes \<Rightarrow> bytes" where
  "utf8_replace [] = []"
| "utf8_replace (b # bs) =
     (if (of_char b :: nat) < 0x80 then b # utf8_replace bs
      else if (of_char b :: nat) < 0xC2 \<or> 0xF5 \<le> (of_char b :: nat)
        then replacement_character @ utf8_replace bs
      else if (of_char b :: nat) < 0xE0 then
        (case bs of
           [] \<Rightarrow> replacement_character
         | c2 # r2 \<Rightarrow>
             if continuation_byte c2 then b # c2 # utf8_replace r2
             else replacement_character @ utf8_replace bs)
      else if (of_char b :: nat) < 0xF0 then
        (case bs of
           [] \<Rightarrow> replacement_character
         | c2 # r2 \<Rightarrow>
             if \<not> second_byte_ok b c2 then replacement_character @ utf8_replace bs
             else
               (case r2 of
                  [] \<Rightarrow> replacement_character
                | c3 # r3 \<Rightarrow>
                    if continuation_byte c3 then b # c2 # c3 # utf8_replace r3
                    else replacement_character @ utf8_replace r2))
      else
        (case bs of
           [] \<Rightarrow> replacement_character
         | c2 # r2 \<Rightarrow>
             if \<not> second_byte_ok b c2 then replacement_character @ utf8_replace bs
             else
               (case r2 of
                  [] \<Rightarrow> replacement_character
                | c3 # r3 \<Rightarrow>
                    if \<not> continuation_byte c3 then replacement_character @ utf8_replace r2
                    else
                      (case r3 of
                         [] \<Rightarrow> replacement_character
                       | c4 # r4 \<Rightarrow>
                           if continuation_byte c4 then b # c2 # c3 # c4 # utf8_replace r4
                           else replacement_character @ utf8_replace r3))))"

text \<open>\<open>unquote_runs run s\<close>: \<open>run\<close> is the ASCII run read so far.\<close>

fun unquote_runs :: "string \<Rightarrow> string \<Rightarrow> string" where
  "unquote_runs run [] = utf8_replace (unquote_to_bytes run)"
| "unquote_runs run (c # cs) =
     (if (of_char c :: nat) < 0x80 then unquote_runs (run @ [c]) cs
      else utf8_replace (unquote_to_bytes run) @ c # unquote_runs [] cs)"

definition unquote :: "string \<Rightarrow> string" where
  "unquote s = unquote_runs [] s"

text \<open>\<^verbatim>\<open>unquote(os.path.basename(parsed.path)) or "downloaded_file"\<close>\<close>

definition filename_of :: "string \<Rightarrow> string" where
  "filename_of url =
     (let name = unquote (basename (urlparse_path url)) in
      if name = [] then ''downloaded_file'' else name)"

subsection \<open>The network\<close>

text \<open>
  What a server answers to \<^verbatim>\<open>requests.get(url, stream=True)\<close>: nothing (the call raises
  \<^verbatim>\<open>ConnectionError\<close>) or a response with a status code, the value of its
  \<^verbatim>\<open>Content-Length\<close> header if it has one, and a body, which is taken to arrive whole.
\<close>

record response =
  status :: nat
  content_length :: "string option"
  body :: bytes

datatype reply = ConnectionFails | Responds response

definition requests_get :: "(string \<Rightarrow> reply) \<Rightarrow> string \<Rightarrow> world \<Rightarrow> (exn + response) \<times> world" where
  "requests_get net url s =
     (let s' = s\<lparr>requested := requested s @ [url]\<rparr> in
      case net url of
        ConnectionFails \<Rightarrow> (Inl ConnectionError, s')
      | Responds r \<Rightarrow> (Inr r, s'))"

text \<open>\<^verbatim>\<open>Response.raise_for_status\<close> raises for the codes 400 to 599.\<close>

definition raise_for_status :: "response \<Rightarrow> exn + unit" where
  "raise_for_status r =
     (if 400 \<le> status r \<and> status r < 600 then Inl (HTTPError (status r)) else Inr ())"

text \<open>
  \<^verbatim>\<open>int(text)\<close> on a string, as CPython 3.12 does it for the value of a header (requests
  decodes headers as Latin-1, so the characters are those up to U+00FF). If the text is
  not pure ASCII, its white space beyond ASCII (U+0085 and U+00A0, in UTF-8 the bytes
  C2 85 and C2 A0) becomes a space; every other character beyond ASCII makes the text
  invalid. Then the white space of C (codes 9 to 13 and 32) is skipped on both sides, an
  optional sign is read, and decimal digits follow, which single underscores may separate.
  Anything else, and more than 4300 digits, raises \<^verbatim>\<open>ValueError\<close>.
\<close>

fun spaces_to_ascii :: "string \<Rightarrow> string" where
  "spaces_to_ascii (a # b # cs) =
     (if a = CHR 0xC2 \<and> (b = CHR 0x85 \<or> b = CHR 0xA0) then CHR 0x20 # spaces_to_ascii cs
      else a # spaces_to_ascii (b # cs))"
| "spaces_to_ascii s = s"

definition py_space :: "char \<Rightarrow> bool" where
  "py_space c \<longleftrightarrow> c \<in> set [CHR 0x09, CHR 0x0A, CHR 0x0B, CHR 0x0C, CHR 0x0D, CHR 0x20]"

definition strip :: "string \<Rightarrow> string" where
  "strip s = rev (dropWhile py_space (rev (dropWhile py_space s)))"

definition digit_val :: "char \<Rightarrow> int option" where
  "digit_val c = map_of (zip ''0123456789'' [0, 1, 2, 3, 4, 5, 6, 7, 8, 9]) c"

fun digits_ok :: "string \<Rightarrow> bool" where
  \<comment> \<open>a digit, then digits, each preceded by at most one underscore\<close>
  "digits_ok [] = False"
| "digits_ok [c] = (digit_val c \<noteq> None)"
| "digits_ok (c # d # cs) =
     (digit_val c \<noteq> None \<and>
      (if d = CHR ''_'' then digits_ok cs else digits_ok (d # cs)))"

definition digits_value :: "string \<Rightarrow> int" where
  "digits_value ds =
     foldl (\<lambda>acc c. case digit_val c of Some v \<Rightarrow> acc * 10 + v | None \<Rightarrow> acc) 0 ds"

definition py_int :: "string \<Rightarrow> exn + int" where
  "py_int text =
     (let t = strip (spaces_to_ascii text);
          (sign, ds) = (if t \<noteq> [] \<and> hd t = CHR ''-'' then (- 1, tl t)
                        else if t \<noteq> [] \<and> hd t = CHR ''+'' then (1, tl t)
                        else (1, t))
      in if digits_ok ds \<and> length (filter (\<lambda>c. c \<noteq> CHR ''_'') ds) \<le> 4300
         then Inr (sign * digits_value ds) else Inl ValueError)"

text \<open>\<^verbatim>\<open>int(resp.headers.get('Content-Length', 0))\<close>\<close>

definition total_size_of :: "response \<Rightarrow> exn + int" where
  "total_size_of r = (case content_length r of None \<Rightarrow> Inr 0 | Some v \<Rightarrow> py_int v)"

text \<open>
  \<^verbatim>\<open>resp.iter_content(chunk_size=n)\<close>: the body in pieces of \<open>n\<close> bytes, the last one
  possibly shorter. Not modelled: a transfer that breaks off, where the iterator raises
  \<^verbatim>\<open>ChunkedEncodingError\<close> or \<^verbatim>\<open>ConnectionError\<close> inside the loop (also when the body
  is shorter than its \<^verbatim>\<open>Content-Length\<close>), and the piece boundaries of a chunked
  transfer, which are the server's.
\<close>

function iter_content :: "nat \<Rightarrow> bytes \<Rightarrow> bytes list" where
  "iter_content n b =
     (if n = 0 \<or> b = [] then [] else take n b # iter_content n (drop n b))"
  by pat_completeness auto
termination
  by (relation "measure (\<lambda>(n, b). length b)") auto

declare iter_content.simps [simp del]

subsection \<open>\<^verbatim>\<open>download_file\<close>\<close>

text \<open>
  The body of the \<^verbatim>\<open>for chunk in resp.iter_content(...)\<close> loop (lines 77 to 85), with the
  running byte count \<open>downloaded\<close>.
\<close>

definition percent_of :: "int \<Rightarrow> int \<Rightarrow> rat" where
  "percent_of downloaded total_size = of_int downloaded * 100 / of_int total_size"

fun write_chunks :: "string \<Rightarrow> path \<Rightarrow> int \<Rightarrow> bytes list \<Rightarrow> int \<Rightarrow> world \<Rightarrow> world" where
  "write_chunks filename dest_path total_size [] downloaded s = s"
| "write_chunks filename dest_path total_size (chunk # rest) downloaded s =
     (if chunk = [] then write_chunks filename dest_path total_size rest downloaded s
      else
        let s1 = file_write dest_path chunk s;
            downloaded' = downloaded + int (length chunk);
            s2 = (if total_size \<noteq> 0
                  then print (Progress filename (percent_of downloaded' total_size)) s1
                  else s1)
        in write_chunks filename dest_path total_size rest downloaded' s2)"

definition download_file ::
  "(string \<Rightarrow> reply) \<Rightarrow> string \<Rightarrow> path \<Rightarrow> world \<Rightarrow> (exn + path) \<times> world" where
  "download_file net url dest_folder s =
     (case makedirs dest_folder s of
        (Inl e, s0) \<Rightarrow> (Inl e, s0)
      | (Inr _, s0) \<Rightarrow>
          let filename = filename_of url;
              dest_path = os_path_join dest_folder filename
          in
          if os_path_exists dest_path s0
          then (Inr dest_path, print (InfoExists filename) s0)
          else
            (case requests_get net url (print (InfoDownloading url) s0) of
               (Inl e, s1) \<Rightarrow> (Inl e, s1)
             | (Inr resp, s1) \<Rightarrow>
                 (case raise_for_status resp of
                    Inl e \<Rightarrow> (Inl e, s1)
                  | Inr _ \<Rightarrow>
                      (case total_size_of resp of
                         Inl e \<Rightarrow> (Inl e, s1)
                       | Inr total_size \<Rightarrow>
                           let s2 = open_wb dest_path s1;
                               s3 = write_chunks filename dest_path total_size
                                      (iter_content (8 * 1024) (body resp)) 0 s2;
                               s4 = (if total_size \<noteq> 0 then print Newline s3 else s3)
                           in (Inr dest_path, print (InfoFinished filename) s4)))))"

subsection \<open>\<^verbatim>\<open>download_videos\<close>\<close>

text \<open>
  What \<^verbatim>\<open>yt_dlp\<close> does with one URL is a parameter: it raises an exception, or it reports a
  download error of its own (which the option \<^verbatim>\<open>ignoreerrors\<close> turns into a message on
  standard error and a normal return), or it obtains a video with a title, an extension and
  a content and saves it under the output template.
\<close>

datatype video_outcome = Raises exn | Unavailable | Video string string bytes

record ydl_opts =
  outtmpl :: string
  format :: string
  noplaylist :: bool
  quiet :: bool
  ignoreerrors :: bool
  merge_output_format :: string

text \<open>The output template with \<^verbatim>\<open>%(title)s\<close> and \<^verbatim>\<open>%(ext)s\<close> filled in.\<close>

function render_outtmpl :: "string \<Rightarrow> string \<Rightarrow> string \<Rightarrow> path" where
  "render_outtmpl tmpl title ext =
     (if tmpl = [] then []
      else if take 9 tmpl = ''%(title)s'' then title @ render_outtmpl (drop 9 tmpl) title ext
      else if take 7 tmpl = ''%(ext)s'' then ext @ render_outtmpl (drop 7 tmpl) title ext
      else hd tmpl # render_outtmpl (tl tmpl) title ext)"
  by pat_completeness auto
termination
  by (relation "measure (\<lambda>(tmpl, title, ext). length tmpl)") auto

declare render_outtmpl.simps [simp del]

definition ydl_download ::
  "(string \<Rightarrow> video_outcome) \<Rightarrow> ydl_opts \<Rightarrow> string \<Rightarrow> world \<Rightarrow> (exn + unit) \<times> world" where
  "ydl_download yt opts url s =
     (let s' = s\<lparr>requested := requested s @ [url]\<rparr> in
      case yt url of
        Raises e \<Rightarrow> (Inl e, s')
      | Unavailable \<Rightarrow> (if ignoreerrors opts then (Inr (), s') else (Inl DownloadError, s'))
      | Video title ext content \<Rightarrow>
          (Inr (), s'\<lparr>fs := (fs s')(render_outtmpl (outtmpl opts) title ext \<mapsto> File content)\<rparr>))"

text \<open>The \<^verbatim>\<open>for url in video_urls\<close> loop with its \<^verbatim>\<open>try\<close> (lines 115 to 120).\<close>

fun video_loop ::
  "(string \<Rightarrow> video_outcome) \<Rightarrow> ydl_opts \<Rightarrow> string list \<Rightarrow> world \<Rightarrow> world" where
  "video_loop yt opts [] s = s"
| "video_loop yt opts (url # urls) s =
     (case ydl_download yt opts url (print (InfoVideo url) s) of
        (Inl exc, s1) \<Rightarrow> video_loop yt opts urls (print (ErrorVideo url exc) s1)
      | (Inr _, s1) \<Rightarrow> video_loop yt opts urls s1)"

text \<open>
  The first argument is the result of \<^verbatim>\<open>import yt_dlp\<close>: \<open>None\<close> when the import raises
  \<^verbatim>\<open>ImportError\<close>.
\<close>

definition download_videos ::
  "(string \<Rightarrow> video_outcome) option \<Rightarrow> string list \<Rightarrow> path \<Rightarrow> world \<Rightarrow> (exn + unit) \<times> world" where
  "download_videos yt_dlp video_urls dest_folder s =
     (case yt_dlp of
        None \<Rightarrow> (Inr (), print WarnNoYtDlp s)
      | Some yt \<Rightarrow>
          (case makedirs dest_folder s of
             (Inl e, s0) \<Rightarrow> (Inl e, s0)
           | (Inr _, s0) \<Rightarrow>
               let ydl_opts = \<lparr>outtmpl = os_path_join dest_folder ''%(title)s.%(ext)s'',
                                format = ''bestvideo+bestaudio/best'',
                                noplaylist = True,
                                quiet = False,
                                ignoreerrors = True,
                                merge_output_format = ''mp4''\<rparr>
               in (Inr (), video_loop yt ydl_opts video_urls s0)))"

subsection \<open>\<^verbatim>\<open>main\<close>\<close>

definition VIDEO_URLS :: "string list" where
  "VIDEO_URLS =
    [''https://www.youtube.com/watch?v=CIc-Eeh7IUY'',
     ''https://www.youtube.com/watch?v=MFMHu1YEYQo'',
     ''https://www.msn.com/en-us/video/animals/hidden-camera-captures-a-tiny-mouse-collecting-food/vi-AA1Sv1nx'',
     ''https://www.youtube.com/watch?v=NfX6bm9x1i4'',
     ''https://www.youtube.com/watch?v=pGJbyh7oE2U'',
     ''https://www.youtube.com/watch?v=cP-___7Pva4'',
     ''https://www.youtube.com/watch?v=yqfF9e9PHj4'',
     ''https://www.youtube.com/watch?v=n3gfYT5Bw_g'',
     ''https://www.youtube.com/watch?v=wHWCjBzk6zc'',
     ''https://www.youtube.com/watch?v=Rs0KxwonI7k'']"

definition DATASET_URLS :: "string list" where
  "DATASET_URLS =
    [''https://zenodo.org/record/3636136/files/RGB_D_Rat_Behavioral_Dataset_AnnotatedSection.zip?download=1'',
     ''https://zenodo.org/record/3636136/files/RGB_D_Rat_Behavioral_Dataset_NonannotatedSection.zip?download=1'',
     ''https://zenodo.org/record/15112879/files/Dataset_128_16x9x10K_Color.zip?download=1'',
     ''https://data.caltech.edu/records/4emt5-b0t10/files/CRIM13_res.zip?download=1'',
     ''https://data.caltech.edu/records/4emt5-b0t10/files/CRIM13_test1.zip?download=1'',
     ''https://data.caltech.edu/records/4emt5-b0t10/files/CRIM13_test2.zip?download=1'',
     ''https://data.caltech.edu/records/4emt5-b0t10/files/CRIM13_train1.zip?download=1'',
     ''https://data.caltech.edu/records/4emt5-b0t10/files/CRIM13_train2.zip?download=1'',
     ''https://data.caltech.edu/records/4emt5-b0t10/files/CRIM13_validation.zip?download=1'']"

text \<open>
  The \<^verbatim>\<open>for dataset_url in DATASET_URLS\<close> loop (lines 149 to 153): the \<^verbatim>\<open>except\<close> clause
  names \<^verbatim>\<open>requests.HTTPError\<close>, so every other exception leaves the loop.
\<close>

fun dataset_loop :: "(string \<Rightarrow> reply) \<Rightarrow> string list \<Rightarrow> world \<Rightarrow> (exn + unit) \<times> world" where
  "dataset_loop net [] s = (Inr (), s)"
| "dataset_loop net (dataset_url # rest) s =
     (case download_file net dataset_url ''downloaded_datasets'' s of
        (Inl (HTTPError code), s1) \<Rightarrow>
          dataset_loop net rest (print (ErrorDataset dataset_url (HTTPError code)) s1)
      | (Inl err, s1) \<Rightarrow> (Inl err, s1)
      | (Inr _, s1) \<Rightarrow> dataset_loop net rest s1)"

definition main ::
  "(string \<Rightarrow> video_outcome) option \<Rightarrow> (string \<Rightarrow> reply) \<Rightarrow> world \<Rightarrow> (exn + unit) \<times> world" where
  "main yt_dlp net s =
     (case download_videos yt_dlp VIDEO_URLS ''downloaded_videos'' s of
        (Inl e, s1) \<Rightarrow> (Inl e, s1)
      | (Inr _, s1) \<Rightarrow> dataset_loop net DATASET_URLS s1)"

text \<open>
  The exit status of the interpreter: 0 when \<^verbatim>\<open>main\<close> returns, 1 when an exception
  leaves it.
\<close>

definition exit_code :: "exn + unit \<Rightarrow> nat" where
  "exit_code r = (case r of Inr _ \<Rightarrow> 0 | Inl _ \<Rightarrow> 1)"

subsection \<open>Notions of the specification\<close>

text \<open>
  The byte counts after the first, the first two, ... chunks: what the specification
  calls the cumulative downloaded bytes.
\<close>

definition cumulative :: "bytes list \<Rightarrow> int list" where
  "cumulative chunks = map (\<lambda>k. int (length (concat (take k chunks)))) [1..<Suc (length chunks)]"

text \<open>The same counts the way the loop computes them, from a running total.\<close>

fun running :: "int \<Rightarrow> bytes list \<Rightarrow> int list" where
  "running d [] = []"
| "running d (c # cs) = (d + int (length c)) # running (d + int (length c)) cs"

text \<open>The last segment of a path: what follows its last slash.\<close>

definition last_segment :: "string \<Rightarrow> string" where
  "last_segment p = rev (takeWhile (\<lambda>c. c \<noteq> CHR ''/'') (rev p))"

text \<open>
  Percent-encoding as \<^verbatim>\<open>urllib.parse.quote(name, safe='')\<close> does it for ASCII: letters,
  digits and \<^verbatim>\<open>- . _ ~\<close> stay, every other character becomes a percent sign and the two
  upper-case hexadecimal digits of its code. \<open>printable\<close> are the visible ASCII characters.
\<close>

definition unreserved :: string where
  "unreserved = ascii_lowercase @ ascii_uppercase @ ''0123456789-._~''"

definition hex_upper :: "nat \<Rightarrow> char" where
  "hex_upper n = ''0123456789ABCDEF'' ! n"

definition percent_encode_char :: "char \<Rightarrow> string" where
  "percent_encode_char c =
     (if c \<in> set unreserved then [c]
      else [CHR ''%'', hex_upper (of_char c div 16), hex_upper (of_char c mod 16)])"

definition percent_encode :: "string \<Rightarrow> string" where
  "percent_encode s = concat (map percent_encode_char s)"

definition printable :: "char \<Rightarrow> bool" where
  "printable c \<longleftrightarrow> 32 < (of_char c :: nat) \<and> (of_char c :: nat) < 127"

subsection \<open>Sample inputs\<close>

text \<open>
  A world with the given nodes, an empty console and an empty network log; a network
  without connection; a server with one answer for every URL; a \<^verbatim>\<open>yt_dlp\<close> that fails on
  the URL \<^verbatim>\<open>first\<close> and obtains a video from any other.
\<close>

definition world_of :: "(path \<times> node) list \<Rightarrow> world" where
  "world_of nodes = \<lparr>fs = map_of nodes, stdout = [], requested = []\<rparr>"

definition offline :: "string \<Rightarrow> reply" where
  "offline url = ConnectionFails"

definition serve :: "response \<Rightarrow> string \<Rightarrow> reply" where
  "serve r url = Responds r"

definition archive_url :: string where
  "archive_url = ''https://host/a.zip''"

definition reply_with :: "nat \<Rightarrow> string option \<Rightarrow> bytes \<Rightarrow> response" where
  "reply_with code len content = \<lparr>status = code, content_length = len, body = content\<rparr>"

definition two_videos :: "string \<Rightarrow> video_outcome" where
  "two_videos url = (if url = ''first'' then Raises RuntimeError else Video ''clip'' ''mp4'' ''data'')"

section \<open>Properties\<close>

subsection \<open>Chunks and the write loop\<close>

lemma running_shift: "running d cs = map (\<lambda>x. d + x) (running 0 cs)"
proof (induction cs arbitrary: d)
  case Nil
  show ?case by simp
next
  case (Cons c cs)
  have "running (d + int (length c)) cs = map (\<lambda>x. d + int (length c) + x) (running 0 cs)"
    by (rule Cons.IH)
  moreover have "running (0 + int (length c)) cs = map (\<lambda>x. 0 + int (length c) + x) (running 0 cs)"
    by (rule Cons.IH)
  ultimately show ?case by simp
qed

lemma cumulative_Cons:
  "cumulative (c # cs) = int (length c) # map (\<lambda>x. int (length c) + x) (cumulative cs)"
proof -
  have "[1..<Suc (Suc (length cs))] = 1 # map Suc [1..<Suc (length cs)]"
    by (simp add: upt_conv_Cons map_Suc_upt del: upt_Suc)
  then show ?thesis
    by (simp add: cumulative_def comp_def del: upt_Suc)
qed

lemma running_cumulative: "running 0 cs = cumulative cs"
proof (induction cs)
  case Nil
  show ?case by (simp add: cumulative_def)
next
  case (Cons c cs)
  have "running (int (length c)) cs = map (\<lambda>x. int (length c) + x) (running 0 cs)"
    by (rule running_shift)
  with Cons show ?case by (simp add: cumulative_Cons)
qed

lemma cumulative_length: "length (cumulative cs) = length cs"
  by (cases cs) (simp_all add: cumulative_def del: upt_Suc)

lemma iter_content_concat: "0 < n \<Longrightarrow> concat (iter_content n b) = b"
proof (induction n b rule: iter_content.induct)
  case (1 n b)
  show ?case
  proof (cases "b = []")
    case True
    then show ?thesis by (simp add: iter_content.simps)
  next
    case False
    with 1 have "concat (iter_content n (drop n b)) = drop n b" by simp
    with False 1(2) show ?thesis by (subst iter_content.simps) simp
  qed
qed

lemma iter_content_nonempty: "[] \<notin> set (iter_content n b)"
proof (induction n b rule: iter_content.induct)
  case (1 n b)
  show ?case
  proof (cases "n = 0 \<or> b = []")
    case True
    then show ?thesis by (subst iter_content.simps) simp
  next
    case False
    with 1 have "[] \<notin> set (iter_content n (drop n b))" by simp
    with False show ?thesis by (subst iter_content.simps) auto
  qed
qed

lemma iter_content_bounded: "c \<in> set (iter_content n b) \<Longrightarrow> length c \<le> n"
proof (induction n b arbitrary: c rule: iter_content.induct)
  case (1 n b)
  show ?case
  proof (cases "n = 0 \<or> b = []")
    case True
    with 1(2) show ?thesis by (subst (asm) iter_content.simps) simp
  next
    case False
    from 1(2) have "c \<in> set (take n b # iter_content n (drop n b))"
      using False by (subst (asm) iter_content.simps) simp
    then show ?thesis using 1(1) False by auto
  qed
qed

lemma iter_content_single:
  "b \<noteq> [] \<Longrightarrow> length b \<le> n \<Longrightarrow> iter_content n b = [b]"
proof -
  assume b: "b \<noteq> []" and n: "length b \<le> n"
  from b n have "0 < n" by (cases b) auto
  moreover from n have "drop n b = []" by simp
  moreover have "iter_content n [] = []" by (subst iter_content.simps) simp
  ultimately show ?thesis using b n by (subst iter_content.simps) simp
qed

lemma iter_content_Nil_iff: "0 < n \<Longrightarrow> iter_content n b = [] \<longleftrightarrow> b = []"
  by (subst iter_content.simps) simp

lemma write_chunks_requested:
  "requested (write_chunks fn p t cs d s) = requested s"
  by (induction cs arbitrary: d s) (auto simp: Let_def file_write_def print_def split: option.splits node.splits)

lemma write_chunks_fs:
  "fs s p = Some (File c) \<Longrightarrow>
   fs (write_chunks fn p t cs d s) = (fs s)(p \<mapsto> File (c @ concat cs))"
proof (induction cs arbitrary: d s c)
  case Nil
  then show ?case by (simp add: map_upd_triv)
next
  case (Cons chunk cs)
  show ?case
  proof (cases "chunk = []")
    case True
    with Cons show ?thesis by simp
  next
    case False
    define s2 where "s2 = (if t \<noteq> 0
        then print (Progress fn (percent_of (d + int (length chunk)) t)) (file_write p chunk s)
        else file_write p chunk s)"
    have fs2: "fs s2 = (fs s)(p \<mapsto> File (c @ chunk))"
      using Cons.prems by (simp add: s2_def file_write_def print_def)
    then have "fs s2 p = Some (File (c @ chunk))" by simp
    then have "fs (write_chunks fn p t cs (d + int (length chunk)) s2)
               = (fs s2)(p \<mapsto> File ((c @ chunk) @ concat cs))"
      by (rule Cons.IH)
    with False fs2 show ?thesis by (simp add: Let_def s2_def)
  qed
qed

lemma write_chunks_stdout:
  "fs s p = Some (File c) \<Longrightarrow>
   stdout (write_chunks fn p t cs d s) =
     stdout s @ (if t \<noteq> 0
                 then map (\<lambda>x. Progress fn (percent_of x t)) (running d (filter (\<lambda>c. c \<noteq> []) cs))
                 else [])"
proof (induction cs arbitrary: d s c)
  case Nil
  then show ?case by simp
next
  case (Cons chunk cs)
  show ?case
  proof (cases "chunk = []")
    case True
    with Cons show ?thesis by simp
  next
    case False
    define s2 where "s2 = (if t \<noteq> 0
        then print (Progress fn (percent_of (d + int (length chunk)) t)) (file_write p chunk s)
        else file_write p chunk s)"
    have "fs s2 p = Some (File (c @ chunk))"
      using Cons.prems by (simp add: s2_def file_write_def print_def)
    then have "stdout (write_chunks fn p t cs (d + int (length chunk)) s2) =
         stdout s2 @ (if t \<noteq> 0
                 then map (\<lambda>x. Progress fn (percent_of x t))
                        (running (d + int (length chunk)) (filter (\<lambda>c. c \<noteq> []) cs))
                 else [])"
      by (rule Cons.IH)
    moreover have "stdout s2 = stdout s @ (if t \<noteq> 0 then [Progress fn (percent_of (d + int (length chunk)) t)] else [])"
      using Cons.prems by (simp add: s2_def file_write_def print_def)
    ultimately show ?thesis using False by (simp add: Let_def s2_def)
  qed
qed

subsection \<open>The paths through \<^verbatim>\<open>download_file\<close>\<close>

lemma makedirs_ok:
  assumes "makedirs d s = (Inr (), s0)"
  shows "fs s0 d = Some Dir" and "stdout s0 = stdout s" and "requested s0 = requested s"
    and "fs s0 = fs s \<or> (fs s d = None \<and> fs s0 = (fs s)(d \<mapsto> Dir))"
  using assms by (auto simp: makedirs_def split: option.splits node.splits)

lemma makedirs_files:
  "makedirs d s = (r, s0) \<Longrightarrow> fs s0 p = Some (File c) \<longleftrightarrow> fs s p = Some (File c)"
  by (auto simp: makedirs_def split: option.splits node.splits if_splits)

lemma makedirs_Dir: "fs s d = Some Dir \<Longrightarrow> makedirs d s = (Inr (), s)"
  by (simp add: makedirs_def)

lemma makedirs_error:
  "makedirs d s = (Inl e, s0) \<Longrightarrow> s0 = s \<and> e = FileExistsError"
  by (auto simp: makedirs_def split: option.splits node.splits)

lemma makedirs_succeeds:
  assumes "\<forall>c. fs s d \<noteq> Some (File c)"
  shows "\<exists>s0. makedirs d s = (Inr (), s0) \<and> (\<forall>p. p \<noteq> d \<longrightarrow> fs s0 p = fs s p)"
proof (cases "fs s d")
  case None
  then show ?thesis by (simp add: makedirs_def)
next
  case (Some n)
  with assms show ?thesis by (cases n) (simp_all add: makedirs_def)
qed

lemma download_file_makedirs_fails:
  "makedirs dest s = (Inl e, s0) \<Longrightarrow> download_file net url dest s = (Inl e, s0)"
  by (simp add: download_file_def)

lemma download_file_skip:
  assumes "makedirs dest s = (Inr (), s0)"
    and "os_path_exists (os_path_join dest (filename_of url)) s0"
  shows "download_file net url dest s =
           (Inr (os_path_join dest (filename_of url)), print (InfoExists (filename_of url)) s0)"
  using assms by (simp add: download_file_def Let_def)

lemma download_file_no_reply:
  assumes "makedirs dest s = (Inr (), s0)"
    and "\<not> os_path_exists (os_path_join dest (filename_of url)) s0"
    and "net url = ConnectionFails"
  shows "download_file net url dest s =
           (Inl ConnectionError,
            s0\<lparr>stdout := stdout s0 @ [InfoDownloading url], requested := requested s0 @ [url]\<rparr>)"
  using assms by (simp add: download_file_def Let_def requests_get_def print_def)

lemma download_file_status:
  assumes "makedirs dest s = (Inr (), s0)"
    and "\<not> os_path_exists (os_path_join dest (filename_of url)) s0"
    and "net url = Responds r" and "400 \<le> status r \<and> status r < 600"
  shows "download_file net url dest s =
           (Inl (HTTPError (status r)),
            s0\<lparr>stdout := stdout s0 @ [InfoDownloading url], requested := requested s0 @ [url]\<rparr>)"
  using assms
  by (simp add: download_file_def Let_def requests_get_def print_def raise_for_status_def)

lemma download_file_bad_length:
  assumes "makedirs dest s = (Inr (), s0)"
    and "\<not> os_path_exists (os_path_join dest (filename_of url)) s0"
    and "net url = Responds r" and "\<not> (400 \<le> status r \<and> status r < 600)"
    and "total_size_of r = Inl e"
  shows "download_file net url dest s =
           (Inl e,
            s0\<lparr>stdout := stdout s0 @ [InfoDownloading url], requested := requested s0 @ [url]\<rparr>)"
  using assms
  by (auto simp: download_file_def Let_def requests_get_def print_def raise_for_status_def)

lemma download_file_transfer:
  assumes "makedirs dest s = (Inr (), s0)"
    and "\<not> os_path_exists (os_path_join dest (filename_of url)) s0"
    and "net url = Responds r" and "\<not> (400 \<le> status r \<and> status r < 600)"
    and "total_size_of r = Inr t"
    and "download_file net url dest s = (res, s')"
  shows "res = Inr (os_path_join dest (filename_of url))"
    and "fs s' = (fs s0)(os_path_join dest (filename_of url) \<mapsto> File (body r))"
    and "stdout s' = stdout s0 @ [InfoDownloading url]
           @ (if t \<noteq> 0
              then map (\<lambda>x. Progress (filename_of url) (percent_of x t))
                     (cumulative (iter_content (8 * 1024) (body r))) @ [Newline]
              else [])
           @ [InfoFinished (filename_of url)]"
    and "requested s' = requested s0 @ [url]"
proof -
  define fn where "fn = filename_of url"
  define dp where "dp = os_path_join dest fn"
  define s1 where "s1 = (print (InfoDownloading url) s0)\<lparr>requested := requested s0 @ [url]\<rparr>"
  define s2 where "s2 = open_wb dp s1"
  define cs where "cs = iter_content (8 * 1024) (body r)"
  define s3 where "s3 = write_chunks fn dp t cs 0 s2"
  define s4 where "s4 = (if t \<noteq> 0 then print Newline s3 else s3)"
  have run: "download_file net url dest s = (Inr dp, print (InfoFinished fn) s4)"
    using assms(1-5)
    by (simp add: download_file_def Let_def requests_get_def print_def raise_for_status_def
        fn_def dp_def s1_def s2_def cs_def s3_def s4_def)
  with assms(6) have res: "res = Inr dp" and s': "s' = print (InfoFinished fn) s4" by simp_all
  have f2: "fs s2 dp = Some (File [])" by (simp add: s2_def open_wb_def)
  have "fs s3 = (fs s2)(dp \<mapsto> File ([] @ concat cs))"
    unfolding s3_def using f2 by (rule write_chunks_fs)
  moreover have "concat cs = body r" by (simp add: cs_def iter_content_concat)
  moreover have "fs s2 = (fs s0)(dp \<mapsto> File [])"
    by (simp add: s2_def open_wb_def s1_def print_def)
  ultimately have f3: "fs s3 = (fs s0)(dp \<mapsto> File (body r))" by simp
  have "filter (\<lambda>c. c \<noteq> []) cs = cs"
    using iter_content_nonempty [of "8 * 1024" "body r"] by (auto simp: cs_def filter_id_conv)
  moreover have "stdout s3 = stdout s2 @ (if t \<noteq> 0
                 then map (\<lambda>x. Progress fn (percent_of x t)) (running 0 (filter (\<lambda>c. c \<noteq> []) cs))
                 else [])"
    unfolding s3_def using f2 by (rule write_chunks_stdout)
  moreover have "stdout s2 = stdout s0 @ [InfoDownloading url]"
    by (simp add: s2_def open_wb_def s1_def print_def)
  ultimately have o3: "stdout s3 = stdout s0 @ [InfoDownloading url] @ (if t \<noteq> 0
                 then map (\<lambda>x. Progress fn (percent_of x t)) (cumulative cs) else [])"
    by (simp add: running_cumulative)
  have r3: "requested s3 = requested s0 @ [url]"
    by (simp add: s3_def write_chunks_requested s2_def open_wb_def s1_def print_def)
  show "res = Inr (os_path_join dest (filename_of url))"
    using res by (simp add: dp_def fn_def)
  show "fs s' = (fs s0)(os_path_join dest (filename_of url) \<mapsto> File (body r))"
    using f3 by (simp add: s' s4_def print_def dp_def fn_def)
  show "stdout s' = stdout s0 @ [InfoDownloading url]
           @ (if t \<noteq> 0
              then map (\<lambda>x. Progress (filename_of url) (percent_of x t))
                     (cumulative (iter_content (8 * 1024) (body r))) @ [Newline]
              else [])
           @ [InfoFinished (filename_of url)]"
    using o3 by (simp add: s' s4_def print_def cs_def fn_def)
  show "requested s' = requested s0 @ [url]"
    using r3 by (simp add: s' s4_def print_def)
qed

lemma download_file_success:
  assumes "download_file net url dest s = (Inr p, s1)"
  shows "p = os_path_join dest (filename_of url)" and "fs s1 dest = Some Dir"
    and "os_path_exists p s1"
proof -
  let ?dp = "os_path_join dest (filename_of url)"
  obtain s0 where mk: "makedirs dest s = (Inr (), s0)"
    using assms by (cases "makedirs dest s") (auto simp: download_file_def split: sum.splits)
  have d0: "fs s0 dest = Some Dir" using mk by (rule makedirs_ok)
  have "p = ?dp \<and> fs s1 dest = Some Dir \<and> os_path_exists p s1"
  proof (cases "os_path_exists ?dp s0")
    case True
    from download_file_skip [OF mk True, of net] assms d0 True show ?thesis
      by (auto simp: print_def os_path_exists_def)
  next
    case False
    with d0 have ne: "?dp \<noteq> dest" by (auto simp: os_path_exists_def)
    show ?thesis
    proof (cases "net url")
      case ConnectionFails
      from download_file_no_reply [where net = net, OF mk False this] assms show ?thesis by simp
    next
      case (Responds r)
      show ?thesis
      proof (cases "400 \<le> status r \<and> status r < 600")
        case True
        from download_file_status [where net = net, OF mk False Responds True] assms show ?thesis by simp
      next
        case ok: False
        show ?thesis
        proof (cases "total_size_of r")
          case (Inl e)
          from download_file_bad_length [where net = net, OF mk False Responds ok Inl] assms show ?thesis by simp
        next
          case (Inr t)
          from download_file_transfer(1,2) [where net = net, OF mk False Responds ok Inr assms] d0 ne
          show ?thesis by (simp add: os_path_exists_def)
        qed
      qed
    qed
  qed
  then show "p = ?dp" and "fs s1 dest = Some Dir" and "os_path_exists p s1" by blast+
qed

lemma py_int_1000: "py_int ''1000'' = Inr 1000"
  by code_simp

subsection \<open>The video loop\<close>

lemma ydl_download_requested:
  "ydl_download yt opts url s = (r, s1) \<Longrightarrow> requested s1 = requested s @ [url]"
  by (auto simp: ydl_download_def Let_def split: video_outcome.splits if_splits)

lemma ydl_download_stdout:
  "ydl_download yt opts url s = (r, s1) \<Longrightarrow> stdout s1 = stdout s"
  by (auto simp: ydl_download_def Let_def split: video_outcome.splits if_splits)

lemma ydl_download_file_kept:
  "ydl_download yt opts url s = (r, s1) \<Longrightarrow> fs s p = Some (File c) \<Longrightarrow> \<exists>c'. fs s1 p = Some (File c')"
  by (auto simp: ydl_download_def Let_def split: video_outcome.splits if_splits)

lemma ydl_download_frame:
  assumes "ydl_download yt opts url s = (r, s1)"
    and "\<forall>title ext. render_outtmpl (outtmpl opts) title ext \<noteq> p"
  shows "fs s1 p = fs s p"
proof (cases "yt url")
  case (Video title ext content)
  from assms(2) have "render_outtmpl (outtmpl opts) title ext \<noteq> p" by blast
  with assms(1) Video show ?thesis by (auto simp: ydl_download_def Let_def)
qed (use assms(1) in \<open>auto simp: ydl_download_def Let_def split: if_splits\<close>)

lemma ydl_download_raises:
  "yt url = Raises e \<Longrightarrow> \<exists>s1. ydl_download yt opts url s = (Inl e, s1)"
  by (simp add: ydl_download_def Let_def)

lemma ydl_download_video:
  "yt url = Video title ext content \<Longrightarrow>
   \<exists>s1. ydl_download yt opts url s = (Inr (), s1)
        \<and> fs s1 (render_outtmpl (outtmpl opts) title ext) = Some (File content)"
  by (simp add: ydl_download_def Let_def)

lemma video_loop_requested:
  "requested (video_loop yt opts urls s) = requested s @ urls"
proof (induction urls arbitrary: s)
  case Nil
  show ?case by simp
next
  case (Cons url urls)
  obtain r s1 where step: "ydl_download yt opts url (print (InfoVideo url) s) = (r, s1)"
    by (cases "ydl_download yt opts url (print (InfoVideo url) s)")
  from ydl_download_requested [OF step] have "requested s1 = requested s @ [url]"
    by (simp add: print_def)
  with step Cons.IH show ?case by (cases r) (simp_all add: print_def)
qed

lemma video_loop_stdout_kept:
  "x \<in> set (stdout s) \<Longrightarrow> x \<in> set (stdout (video_loop yt opts urls s))"
proof (induction urls arbitrary: s)
  case Nil
  then show ?case by simp
next
  case (Cons url urls)
  obtain r s1 where step: "ydl_download yt opts url (print (InfoVideo url) s) = (r, s1)"
    by (cases "ydl_download yt opts url (print (InfoVideo url) s)")
  from ydl_download_stdout [OF step] Cons.prems have "x \<in> set (stdout s1)"
    by (simp add: print_def)
  with step Cons.IH show ?case by (cases r) (simp_all add: print_def)
qed

lemma video_loop_file_kept:
  "fs s p = Some (File c) \<Longrightarrow> \<exists>c'. fs (video_loop yt opts urls s) p = Some (File c')"
proof (induction urls arbitrary: s c)
  case Nil
  then show ?case by simp
next
  case (Cons url urls)
  obtain r s1 where step: "ydl_download yt opts url (print (InfoVideo url) s) = (r, s1)"
    by (cases "ydl_download yt opts url (print (InfoVideo url) s)")
  from Cons.prems have "fs (print (InfoVideo url) s) p = Some (File c)" by (simp add: print_def)
  from ydl_download_file_kept [OF step this] obtain c' where c': "fs s1 p = Some (File c')" ..
  then have "fs (print (ErrorVideo url e) s1) p = Some (File c')" for e by (simp add: print_def)
  with c' step Cons.IH show ?case by (cases r) simp_all
qed

lemma video_loop_frame:
  "\<forall>title ext. render_outtmpl (outtmpl opts) title ext \<noteq> p
     \<Longrightarrow> fs (video_loop yt opts urls s) p = fs s p"
proof (induction urls arbitrary: s)
  case Nil
  then show ?case by simp
next
  case (Cons url urls)
  obtain r s1 where step: "ydl_download yt opts url (print (InfoVideo url) s) = (r, s1)"
    by (cases "ydl_download yt opts url (print (InfoVideo url) s)")
  from ydl_download_frame [OF step Cons.prems] have "fs s1 p = fs s p" by (simp add: print_def)
  with step Cons.IH [OF Cons.prems] show ?case by (cases r) (simp_all add: print_def)
qed

lemma video_loop_logs_error:
  "url \<in> set urls \<Longrightarrow> yt url = Raises e \<Longrightarrow>
   ErrorVideo url e \<in> set (stdout (video_loop yt opts urls s))"
proof (induction urls arbitrary: s)
  case Nil
  then show ?case by simp
next
  case (Cons u urls)
  obtain r s1 where step: "ydl_download yt opts u (print (InfoVideo u) s) = (r, s1)"
    by (cases "ydl_download yt opts u (print (InfoVideo u) s)")
  show ?case
  proof (cases "u = url")
    case True
    from ydl_download_raises [where yt = yt, OF Cons.prems(2), of opts "print (InfoVideo u) s"] step True have "r = Inl e" by fastforce
    moreover have "ErrorVideo url e \<in> set (stdout (print (ErrorVideo url e) s1))"
      by (simp add: print_def)
    ultimately show ?thesis using step True by (simp add: video_loop_stdout_kept)
  next
    case False
    with Cons.prems have "url \<in> set urls" by simp
    with step Cons.IH Cons.prems(2) show ?thesis by (cases r) simp_all
  qed
qed

lemma video_loop_saves:
  "url \<in> set urls \<Longrightarrow> yt url = Video title ext content \<Longrightarrow>
   \<exists>c. fs (video_loop yt opts urls s) (render_outtmpl (outtmpl opts) title ext) = Some (File c)"
proof (induction urls arbitrary: s)
  case Nil
  then show ?case by simp
next
  case (Cons u urls)
  obtain r s1 where step: "ydl_download yt opts u (print (InfoVideo u) s) = (r, s1)"
    by (cases "ydl_download yt opts u (print (InfoVideo u) s)")
  show ?case
  proof (cases "u = url")
    case True
    from ydl_download_video [where yt = yt, OF Cons.prems(2), of opts "print (InfoVideo u) s"] step True
    have "r = Inr ()" and "fs s1 (render_outtmpl (outtmpl opts) title ext) = Some (File content)"
      by fastforce+
    with step True show ?thesis by (simp add: video_loop_file_kept)
  next
    case False
    with Cons.prems have "url \<in> set urls" by simp
    with step Cons.IH Cons.prems(2) show ?thesis by (cases r) simp_all
  qed
qed

subsection \<open>Iterating in \<^verbatim>\<open>main\<close>\<close>

lemma render_outtmpl_plain:
  "c \<noteq> CHR ''%'' \<Longrightarrow> render_outtmpl (c # cs) title ext = c # render_outtmpl cs title ext"
  by (subst render_outtmpl.simps) auto

lemma videos_path_not_datasets:
  "render_outtmpl (os_path_join ''downloaded_videos'' ''%(title)s.%(ext)s'') title ext
     \<noteq> ''downloaded_datasets''"
  by (simp add: os_path_join_def render_outtmpl_plain)

lemma download_videos_errors:
  "download_videos yt urls dest s = (Inl e, s') \<Longrightarrow> e = FileExistsError"
  by (auto simp: download_videos_def makedirs_def Let_def split: option.splits node.splits)

lemma download_videos_in_main:
  assumes "\<forall>c. fs s ''downloaded_videos'' \<noteq> Some (File c)"
  shows "\<exists>s1. download_videos yt VIDEO_URLS ''downloaded_videos'' s = (Inr (), s1)
             \<and> fs s1 ''downloaded_datasets'' = fs s ''downloaded_datasets''"
proof (cases yt)
  case None
  then show ?thesis by (simp add: download_videos_def print_def)
next
  case (Some y)
  from makedirs_succeeds [OF assms]
  obtain s0 where mk: "makedirs ''downloaded_videos'' s = (Inr (), s0)"
    and same: "fs s0 ''downloaded_datasets'' = fs s ''downloaded_datasets''"
    by auto
  define opts where "opts = \<lparr>outtmpl = os_path_join ''downloaded_videos'' ''%(title)s.%(ext)s'',
                                format = ''bestvideo+bestaudio/best'',
                                noplaylist = True,
                                quiet = False,
                                ignoreerrors = True,
                                merge_output_format = ''mp4''\<rparr>"
  have "\<forall>title ext. render_outtmpl (outtmpl opts) title ext \<noteq> ''downloaded_datasets''"
    using videos_path_not_datasets by (simp add: opts_def)
  then have "fs (video_loop y opts VIDEO_URLS s0) ''downloaded_datasets'' = fs s0 ''downloaded_datasets''"
    by (rule video_loop_frame)
  with mk same Some show ?thesis by (simp add: download_videos_def opts_def)
qed

lemma dataset_loop_no_http_error:
  "fst (dataset_loop net urls s) \<noteq> Inl (HTTPError code)"
proof (induction urls arbitrary: s)
  case Nil
  show ?case by simp
next
  case (Cons url urls)
  obtain res s1 where run: "download_file net url ''downloaded_datasets'' s = (res, s1)"
    by (cases "download_file net url ''downloaded_datasets'' s")
  show ?case
  proof (cases res)
    case (Inl e)
    with run Cons.IH show ?thesis by (cases e) simp_all
  next
    case (Inr p)
    with run Cons.IH show ?thesis by simp
  qed
qed

lemma video_loop_stdout_grows:
  "\<exists>d. stdout (video_loop yt opts urls s) = stdout s @ d"
proof (induction urls arbitrary: s)
  case Nil
  show ?case by simp
next
  case (Cons url urls)
  obtain r s1 where step: "ydl_download yt opts url (print (InfoVideo url) s) = (r, s1)"
    by (cases "ydl_download yt opts url (print (InfoVideo url) s)")
  from ydl_download_stdout [OF step] have o1: "stdout s1 = stdout s @ [InfoVideo url]"
    by (simp add: print_def)
  show ?case
  proof (cases r)
    case (Inl e)
    from Cons.IH [of "print (ErrorVideo url e) s1"] obtain d
      where "stdout (video_loop yt opts urls (print (ErrorVideo url e) s1))
               = stdout (print (ErrorVideo url e) s1) @ d" ..
    with step Inl o1 show ?thesis by (simp add: print_def)
  next
    case (Inr u)
    from Cons.IH [of s1] obtain d
      where "stdout (video_loop yt opts urls s1) = stdout s1 @ d" ..
    with step Inr o1 show ?thesis by simp
  qed
qed

lemma download_videos_stdout_grows:
  assumes "download_videos yt urls dest s = (res, s1)"
  shows "\<exists>d. stdout s1 = stdout s @ d"
proof (cases yt)
  case None
  with assms show ?thesis by (auto simp: download_videos_def print_def)
next
  case (Some y)
  show ?thesis
  proof (cases "makedirs dest s")
    case (Pair m s0)
    show ?thesis
    proof (cases m)
      case (Inl e)
      with Pair Some assms makedirs_error [of dest s e s0] show ?thesis
        by (simp add: download_videos_def)
    next
      case (Inr u)
      with Pair have mk: "makedirs dest s = (Inr (), s0)" by simp
      from makedirs_ok(2) [OF mk] video_loop_stdout_grows [of y _ urls s0]
      show ?thesis using assms Some mk by (auto simp: download_videos_def Let_def)
    qed
  qed
qed

lemma download_videos_frame:
  assumes "\<forall>c. fs s ''downloaded_videos'' \<noteq> Some (File c)"
    and "p \<noteq> ''downloaded_videos''"
    and "\<forall>title ext.
           render_outtmpl (os_path_join ''downloaded_videos'' ''%(title)s.%(ext)s'') title ext \<noteq> p"
  shows "\<exists>s1. download_videos yt VIDEO_URLS ''downloaded_videos'' s = (Inr (), s1)
             \<and> fs s1 p = fs s p"
proof (cases yt)
  case None
  then show ?thesis by (simp add: download_videos_def print_def)
next
  case (Some y)
  from makedirs_succeeds [OF assms(1)] assms(2)
  obtain s0 where mk: "makedirs ''downloaded_videos'' s = (Inr (), s0)"
    and same: "fs s0 p = fs s p"
    by auto
  define opts where "opts = \<lparr>outtmpl = os_path_join ''downloaded_videos'' ''%(title)s.%(ext)s'',
                                format = ''bestvideo+bestaudio/best'',
                                noplaylist = True,
                                quiet = False,
                                ignoreerrors = True,
                                merge_output_format = ''mp4''\<rparr>"
  have "\<forall>title ext. render_outtmpl (outtmpl opts) title ext \<noteq> p"
    using assms(3) by (simp add: opts_def)
  then have "fs (video_loop y opts VIDEO_URLS s0) p = fs s0 p"
    by (rule video_loop_frame)
  with mk same Some show ?thesis by (simp add: download_videos_def opts_def)
qed

lemma download_file_console:
  assumes "download_file net url dest s = (res, s')"
  shows "\<exists>d. stdout s' = stdout s @ d
           \<and> (((\<exists>p. res = Inr p) \<or> (\<exists>code. res = Inl (HTTPError code))) \<longrightarrow>
                InfoExists (filename_of url) \<in> set d \<or> InfoDownloading url \<in> set d)"
proof (cases "makedirs dest s")
  case (Pair m s0)
  show ?thesis
  proof (cases m)
    case (Inl e)
    with Pair have mk: "makedirs dest s = (Inl e, s0)" by simp
    from makedirs_error [OF mk] download_file_makedirs_fails [OF mk, of net url] assms
    show ?thesis by auto
  next
    case (Inr u)
    with Pair have mk: "makedirs dest s = (Inr (), s0)" by simp
    have o0: "stdout s0 = stdout s" using mk by (rule makedirs_ok)
    show ?thesis
    proof (cases "os_path_exists (os_path_join dest (filename_of url)) s0")
      case True
      from download_file_skip [OF mk True, of net] assms o0 show ?thesis
        by (auto simp: print_def)
    next
      case False
      show ?thesis
      proof (cases "net url")
        case ConnectionFails
        from download_file_no_reply [where net = net, OF mk False this] assms o0
        show ?thesis by auto
      next
        case (Responds r)
        show ?thesis
        proof (cases "400 \<le> status r \<and> status r < 600")
          case True
          from download_file_status [where net = net, OF mk False Responds True] assms o0
          show ?thesis by auto
        next
          case ok: False
          show ?thesis
          proof (cases "total_size_of r")
            case (Inl e)
            from download_file_bad_length [where net = net, OF mk False Responds ok Inl] assms o0
            show ?thesis by auto
          next
            case (Inr t)
            from download_file_transfer(3) [where net = net, OF mk False Responds ok Inr assms] o0
            show ?thesis by auto
          qed
        qed
      qed
    qed
  qed
qed

lemma dataset_loop_console:
  assumes "dataset_loop net urls s = (res, s')"
  shows "\<exists>d. stdout s' = stdout s @ d
           \<and> (res = Inr () \<longrightarrow>
                (\<forall>url \<in> set urls. InfoExists (filename_of url) \<in> set d
                                    \<or> InfoDownloading url \<in> set d))"
  using assms
proof (induction urls arbitrary: s)
  case Nil
  then show ?case by simp
next
  case (Cons url urls)
  obtain r1 s1 where run: "download_file net url ''downloaded_datasets'' s = (r1, s1)"
    by (cases "download_file net url ''downloaded_datasets'' s")
  from download_file_console [OF run] obtain d1 where d1: "stdout s1 = stdout s @ d1"
    and seen: "((\<exists>p. r1 = Inr p) \<or> (\<exists>code. r1 = Inl (HTTPError code))) \<longrightarrow>
                InfoExists (filename_of url) \<in> set d1 \<or> InfoDownloading url \<in> set d1"
    by blast
  show ?case
  proof (cases r1)
    case (Inr p)
    with run Cons.prems have rest: "dataset_loop net urls s1 = (res, s')" by simp
    from Cons.IH [OF rest] obtain d2 where d2: "stdout s' = stdout s1 @ d2"
      and all: "res = Inr () \<longrightarrow>
                (\<forall>url \<in> set urls. InfoExists (filename_of url) \<in> set d2
                                    \<or> InfoDownloading url \<in> set d2)"
      by blast
    from d1 d2 have "stdout s' = stdout s @ (d1 @ d2)" by simp
    moreover from seen Inr all have "res = Inr () \<longrightarrow>
                (\<forall>u \<in> set (url # urls). InfoExists (filename_of u) \<in> set (d1 @ d2)
                                    \<or> InfoDownloading u \<in> set (d1 @ d2))"
      by auto
    ultimately show ?thesis by blast
  next
    case (Inl e)
    show ?thesis
    proof (cases "\<exists>code. e = HTTPError code")
      case True
      then obtain code where e: "e = HTTPError code" ..
      with run Inl Cons.prems
      have rest: "dataset_loop net urls (print (ErrorDataset url (HTTPError code)) s1) = (res, s')"
        by simp
      from Cons.IH [OF rest] obtain d2
        where d2: "stdout s' = stdout (print (ErrorDataset url (HTTPError code)) s1) @ d2"
        and all: "res = Inr () \<longrightarrow>
                (\<forall>url \<in> set urls. InfoExists (filename_of url) \<in> set d2
                                    \<or> InfoDownloading url \<in> set d2)"
        by blast
      from d1 d2 have "stdout s' = stdout s @ (d1 @ ErrorDataset url (HTTPError code) # d2)"
        by (simp add: print_def)
      moreover from seen Inl e all have "res = Inr () \<longrightarrow>
                (\<forall>u \<in> set (url # urls).
                    InfoExists (filename_of u) \<in> set (d1 @ ErrorDataset url (HTTPError code) # d2)
                  \<or> InfoDownloading u \<in> set (d1 @ ErrorDataset url (HTTPError code) # d2))"
        by auto
      ultimately show ?thesis by blast
    next
      case False
      with run Inl Cons.prems have "res = Inl e" and "s' = s1" by (cases e; simp)+
      with d1 show ?thesis by auto
    qed
  qed
qed

lemma dataset_loop_all_errors:
  assumes "\<forall>c. fs s ''downloaded_datasets'' \<noteq> Some (File c)"
    and "\<forall>url \<in> set urls. \<exists>r. net url = Responds r \<and> 400 \<le> status r \<and> status r < 600"
    and "dataset_loop net urls s = (res, s')"
  shows "res = Inr ()
       \<and> (\<exists>d. stdout s' = stdout s @ d
            \<and> (\<forall>url \<in> set urls. \<forall>r. net url = Responds r \<longrightarrow>
                  ErrorDataset url (HTTPError (status r)) \<in> set d
                \<or> InfoExists (filename_of url) \<in> set d))"
  using assms
proof (induction urls arbitrary: s)
  case Nil
  then show ?case by simp
next
  case (Cons url urls)
  from Cons.prems(2) obtain r where r: "net url = Responds r"
    and bad: "400 \<le> status r \<and> status r < 600" by auto
  from Cons.prems(2) have others:
    "\<forall>url \<in> set urls. \<exists>r. net url = Responds r \<and> 400 \<le> status r \<and> status r < 600" by simp
  from makedirs_succeeds [OF Cons.prems(1)]
  obtain s0 where mk: "makedirs ''downloaded_datasets'' s = (Inr (), s0)" by blast
  have o0: "stdout s0 = stdout s" and d0: "fs s0 ''downloaded_datasets'' = Some Dir"
    using makedirs_ok [OF mk] by simp_all
  let ?dp = "os_path_join ''downloaded_datasets'' (filename_of url)"
  show ?case
  proof (cases "os_path_exists ?dp s0")
    case True
    define s1 where "s1 = print (InfoExists (filename_of url)) s0"
    from download_file_skip [OF mk True, of net]
    have run: "download_file net url ''downloaded_datasets'' s = (Inr ?dp, s1)"
      by (simp add: s1_def)
    with Cons.prems(3) have rest: "dataset_loop net urls s1 = (res, s')" by simp
    from d0 have "\<forall>c. fs s1 ''downloaded_datasets'' \<noteq> Some (File c)"
      by (simp add: s1_def print_def)
    from Cons.IH [OF this others rest] obtain d2 where res: "res = Inr ()"
      and d2: "stdout s' = stdout s1 @ d2"
      and all: "\<forall>url \<in> set urls. \<forall>r. net url = Responds r \<longrightarrow>
                  ErrorDataset url (HTTPError (status r)) \<in> set d2
                \<or> InfoExists (filename_of url) \<in> set d2"
      by blast
    from d2 o0 have "stdout s' = stdout s @ (InfoExists (filename_of url) # d2)"
      by (simp add: s1_def print_def)
    moreover from all have "\<forall>u \<in> set (url # urls). \<forall>r. net u = Responds r \<longrightarrow>
                  ErrorDataset u (HTTPError (status r)) \<in> set (InfoExists (filename_of url) # d2)
                \<or> InfoExists (filename_of u) \<in> set (InfoExists (filename_of url) # d2)"
      by auto
    ultimately show ?thesis using res by blast
  next
    case False
    define s1 where "s1 = s0\<lparr>stdout := stdout s0 @ [InfoDownloading url],
                               requested := requested s0 @ [url]\<rparr>"
    define s2 where "s2 = print (ErrorDataset url (HTTPError (status r))) s1"
    from download_file_status [where net = net, OF mk False r bad]
    have run: "download_file net url ''downloaded_datasets'' s = (Inl (HTTPError (status r)), s1)"
      by (simp add: s1_def)
    with Cons.prems(3) have rest: "dataset_loop net urls s2 = (res, s')" by (simp add: s2_def)
    from d0 have "\<forall>c. fs s2 ''downloaded_datasets'' \<noteq> Some (File c)"
      by (simp add: s2_def s1_def print_def)
    from Cons.IH [OF this others rest] obtain d2 where res: "res = Inr ()"
      and d2: "stdout s' = stdout s2 @ d2"
      and all: "\<forall>url \<in> set urls. \<forall>r. net url = Responds r \<longrightarrow>
                  ErrorDataset url (HTTPError (status r)) \<in> set d2
                \<or> InfoExists (filename_of url) \<in> set d2"
      by blast
    let ?d = "InfoDownloading url # ErrorDataset url (HTTPError (status r)) # d2"
    from d2 o0 have "stdout s' = stdout s @ ?d"
      by (simp add: s2_def s1_def print_def)
    moreover from all r have "\<forall>u \<in> set (url # urls). \<forall>r'. net u = Responds r' \<longrightarrow>
                  ErrorDataset u (HTTPError (status r')) \<in> set ?d
                \<or> InfoExists (filename_of u) \<in> set ?d"
      by auto
    ultimately show ?thesis using res by blast
  qed
qed

subsection \<open>Splitting a URL\<close>

lemma takeWhile_skip:
  "c \<notin> set xs \<Longrightarrow> takeWhile (\<lambda>x. x \<noteq> c) (xs @ ys) = xs @ takeWhile (\<lambda>x. x \<noteq> c) ys"
  by (induction xs) auto

lemma takeWhile_short:
  "c \<in> set xs \<Longrightarrow> length (takeWhile (\<lambda>x. x \<noteq> c) xs) < length xs"
  by (induction xs) auto

lemma basename_last_segment: "basename p = last_segment p"
proof (cases "CHR ''/'' \<in> set p")
  case False
  then have tw: "takeWhile (\<lambda>c. c \<noteq> CHR ''/'') (rev p) = rev p"
    by (auto simp: takeWhile_eq_all_conv)
  show ?thesis unfolding basename_def rfind_def last_segment_def tw using False by simp
next
  case True
  define k where "k = length (takeWhile (\<lambda>c. c \<noteq> CHR ''/'') (rev p))"
  have "k < length p"
  proof -
    from True have "CHR ''/'' \<in> set (rev p)" by simp
    then have "length (takeWhile (\<lambda>c. c \<noteq> CHR ''/'') (rev p)) < length (rev p)"
      by (rule takeWhile_short)
    then show ?thesis by (simp add: k_def)
  qed
  then have "nat (rfind (CHR ''/'') p + 1) = length p - k"
    using True by (simp add: rfind_def k_def)
  moreover have "takeWhile (\<lambda>c. c \<noteq> CHR ''/'') (rev p) = take k (rev p)"
    unfolding k_def by (rule takeWhile_eq_take)
  ultimately show ?thesis
    by (simp add: basename_def last_segment_def rev_take)
qed

lemma find_append:
  "c \<notin> set xs \<Longrightarrow> find c (xs @ c # ys) = int (length xs)"
  by (simp add: find_def takeWhile_skip)

lemma colon_not_scheme_char: "CHR '':'' \<notin> set scheme_chars"
  by (simp add: scheme_chars_def ascii_lowercase_def ascii_uppercase_def)

lemma split_scheme_valid:
  assumes "sch \<noteq> []" and "hd sch \<in> set (ascii_lowercase @ ascii_uppercase)"
    and "set sch \<subseteq> set scheme_chars"
  shows "split_scheme (sch @ CHR '':'' # rest) = (lower sch, rest)"
proof -
  from assms(3) colon_not_scheme_char have "CHR '':'' \<notin> set sch" by blast
  then have "find (CHR '':'') (sch @ CHR '':'' # rest) = int (length sch)"
    by (rule find_append)
  with assms show ?thesis by (auto simp: split_scheme_def Let_def)
qed

lemma split_netloc_host:
  assumes "\<forall>c \<in> set host. \<not> netloc_end c" and "tail = [] \<or> netloc_end (hd tail)"
  shows "split_netloc (''//'' @ host @ tail) = tail"
proof -
  have "dropWhile (\<lambda>c. \<not> netloc_end c) (host @ tail) = dropWhile (\<lambda>c. \<not> netloc_end c) tail"
    using assms(1) by (simp add: dropWhile_append2)
  also have "\<dots> = tail" using assms(2) by (cases tail) auto
  finally show ?thesis by (simp add: split_netloc_def)
qed

lemma before_absent: "c \<notin> set xs \<Longrightarrow> before c xs = xs"
  by (simp add: before_def)

lemma before_append: "c \<notin> set xs \<Longrightarrow> before c (xs @ c # ys) = xs"
  by (simp add: before_def takeWhile_skip)

lemma before_tail:
  "c \<notin> set xs \<Longrightarrow> d \<noteq> c \<Longrightarrow> before c (xs @ d # ys) = xs @ d # before c ys"
  by (auto simp: before_def takeWhile_skip)

lemma strip_query_fragment:
  assumes "CHR ''?'' \<notin> set path" and "CHR ''#'' \<notin> set path"
    and "rest = [] \<or> hd rest = CHR ''?'' \<or> hd rest = CHR ''#''"
  shows "before (CHR ''?'') (before (CHR ''#'') (path @ rest)) = path"
proof (cases rest)
  case Nil
  with assms show ?thesis by (simp add: before_absent)
next
  case (Cons d ds)
  with assms(3) consider "d = CHR ''#''" | "d = CHR ''?''" by auto
  then show ?thesis
  proof cases
    case 1
    with Cons assms show ?thesis by (simp add: before_append before_absent)
  next
    case 2
    with Cons assms(2) have "before (CHR ''#'') (path @ rest) = path @ CHR ''?'' # before (CHR ''#'') ds"
      by (simp add: before_tail)
    with assms(1) show ?thesis by (simp add: before_append)
  qed
qed

subsection \<open>Percent-decoding and the cleaned URL\<close>

lemma unquote_to_bytes_plain:
  "c \<noteq> CHR ''%'' \<Longrightarrow> unquote_to_bytes (c # xs) = c # unquote_to_bytes xs"
proof (cases xs)
  case Nil
  then show ?thesis by simp
next
  case (Cons h1 ys)
  assume "c \<noteq> CHR ''%''"
  with Cons show ?thesis by (cases ys) simp_all
qed

lemma hex_upper_value: "n < 16 \<Longrightarrow> map_of hex_digits (hex_upper n) = Some n"
proof -
  have "\<forall>n \<in> set [0..<16]. map_of hex_digits (hex_upper n) = Some n"
    by code_simp
  moreover assume "n < 16"
  ultimately show ?thesis by simp
qed

lemma hex_upper_unreserved: "n < 16 \<Longrightarrow> hex_upper n \<in> set unreserved"
proof -
  have "\<forall>n \<in> set [0..<16]. hex_upper n \<in> set unreserved"
    by code_simp
  moreover assume "n < 16"
  ultimately show ?thesis by simp
qed

lemma of_char_bound: "(of_char c :: nat) < 256"
proof -
  have "(of_char c :: nat) mod 256 = of_char c" by (rule of_char_mod_256)
  moreover have "(of_char c :: nat) mod 256 < 256" by simp
  ultimately show ?thesis by simp
qed

lemma high_nibble: "(of_char c :: nat) div 16 < 16"
proof -
  have "(of_char c :: nat) < 16 * 16" using of_char_bound [of c] by simp
  then show ?thesis by (rule less_mult_imp_div_less)
qed

lemma percent_not_unreserved: "CHR ''%'' \<notin> set unreserved"
  by (simp add: unreserved_def ascii_lowercase_def ascii_uppercase_def)

lemma unquote_to_bytes_encode_char:
  "unquote_to_bytes (percent_encode_char c @ xs) = c # unquote_to_bytes xs"
proof (cases "c \<in> set unreserved")
  case True
  with percent_not_unreserved have "c \<noteq> CHR ''%''" by auto
  with True show ?thesis by (simp add: percent_encode_char_def unquote_to_bytes_plain)
next
  case False
  have hi: "(of_char c :: nat) div 16 < 16" by (rule high_nibble)
  have lo: "(of_char c :: nat) mod 16 < 16" by simp
  have "char_of ((of_char c :: nat) div 16 * 16 + of_char c mod 16) = c" by simp
  with False hex_upper_value [OF hi] hex_upper_value [OF lo] show ?thesis
    by (simp add: percent_encode_char_def)
qed

lemma unquote_to_bytes_encode: "unquote_to_bytes (percent_encode name) = name"
proof (induction name)
  case Nil
  show ?case by (simp add: percent_encode_def)
next
  case (Cons c name)
  have "percent_encode (c # name) = percent_encode_char c @ percent_encode name"
    by (simp add: percent_encode_def)
  with Cons show ?case by (simp add: unquote_to_bytes_encode_char)
qed

lemma utf8_replace_ascii:
  "\<forall>c \<in> set bs. (of_char c :: nat) < 128 \<Longrightarrow> utf8_replace bs = bs"
  by (induction bs) simp_all

lemma unquote_runs_ascii:
  "\<forall>c \<in> set s. (of_char c :: nat) < 128 \<Longrightarrow>
   unquote_runs run s = utf8_replace (unquote_to_bytes (run @ s))"
  by (induction s arbitrary: run) simp_all

lemma encoded_chars:
  "\<forall>c \<in> set (CHR ''%'' # unreserved).
     (of_char c :: nat) < 128 \<and> \<not> unsafe_url_byte c \<and> c \<notin> set ''/?#;''"
  by code_simp

lemma percent_encode_set: "set (percent_encode name) \<subseteq> set (CHR ''%'' # unreserved)"
proof -
  have "set (percent_encode_char c) \<subseteq> set (CHR ''%'' # unreserved)" for c
  proof -
    have "(of_char c :: nat) div 16 < 16" by (rule high_nibble)
    moreover have "(of_char c :: nat) mod 16 < 16" by simp
    ultimately show ?thesis
      by (auto simp: percent_encode_char_def hex_upper_unreserved)
  qed
  then show ?thesis by (auto simp: percent_encode_def)
qed

lemma unquote_percent_encode:
  assumes "\<forall>c \<in> set name. (of_char c :: nat) < 128"
  shows "unquote (percent_encode name) = name"
proof -
  have "\<forall>c \<in> set (percent_encode name). (of_char c :: nat) < 128"
    using percent_encode_set [of name] encoded_chars by blast
  then have "unquote (percent_encode name) = utf8_replace (unquote_to_bytes (percent_encode name))"
    by (simp add: unquote_def unquote_runs_ascii)
  with assms show ?thesis by (simp add: unquote_to_bytes_encode utf8_replace_ascii)
qed

lemma printable_safe: "printable c \<Longrightarrow> \<not> unsafe_url_byte c \<and> \<not> c0_control_or_space c"
  by (auto simp: printable_def unsafe_url_byte_def c0_control_or_space_def)

lemma scheme_chars_safe:
  "\<forall>c \<in> set scheme_chars. \<not> unsafe_url_byte c \<and> \<not> c0_control_or_space c"
  by code_simp

lemma rfind_last:
  "c \<notin> set ys \<Longrightarrow> rfind c (xs @ c # ys) = int (length xs)"
proof -
  assume a: "c \<notin> set ys"
  then have "takeWhile (\<lambda>x. x \<noteq> c) (rev ys @ c # rev xs) = rev ys"
    by (simp add: takeWhile_skip)
  then show ?thesis by (simp add: rfind_def)
qed

lemma find_absent: "c \<notin> set xs \<Longrightarrow> find c xs = - 1"
  by (simp add: find_def)

lemma splitparams_last:
  assumes "CHR ''/'' \<notin> set seg" and "CHR '';'' \<notin> set seg" and "CHR ''/'' \<notin> set ps"
  shows "splitparams (ds @ CHR ''/'' # seg) = ds @ CHR ''/'' # seg"
    and "splitparams (ds @ CHR ''/'' # seg @ CHR '';'' # ps) = ds @ CHR ''/'' # seg"
proof -
  from assms(1) have r1: "rfind (CHR ''/'') (ds @ CHR ''/'' # seg) = int (length ds)"
    by (rule rfind_last)
  from assms(2) have "find (CHR '';'') (CHR ''/'' # seg) = - 1"
    by (simp add: find_absent)
  with r1 show "splitparams (ds @ CHR ''/'' # seg) = ds @ CHR ''/'' # seg"
    by (simp add: splitparams_def Let_def)
  from assms(1,3) have "CHR ''/'' \<notin> set (seg @ CHR '';'' # ps)" by simp
  then have r2: "rfind (CHR ''/'') (ds @ CHR ''/'' # seg @ CHR '';'' # ps) = int (length ds)"
    by (rule rfind_last)
  from assms(2) have "CHR '';'' \<notin> set (CHR ''/'' # seg)" by simp
  then have "find (CHR '';'') ((CHR ''/'' # seg) @ CHR '';'' # ps) = int (length (CHR ''/'' # seg))"
    by (rule find_append)
  then have f2: "find (CHR '';'') (CHR ''/'' # seg @ CHR '';'' # ps) = int (length seg) + 1"
    by simp
  from r2 f2 show "splitparams (ds @ CHR ''/'' # seg @ CHR '';'' # ps) = ds @ CHR ''/'' # seg"
    by (simp add: splitparams_def Let_def nat_add_distrib)
qed

lemma last_segment_after_slash:
  "CHR ''/'' \<notin> set seg \<Longrightarrow> last_segment (ds @ CHR ''/'' # seg) = seg"
  by (simp add: last_segment_def takeWhile_skip)

lemma clean_url_parts:
  assumes "\<not> c0_control_or_space c"
    and "\<forall>x \<in> set (c # front). \<not> unsafe_url_byte x"
  shows "clean_url (c # front @ rest) = c # front @ filter (\<lambda>x. \<not> unsafe_url_byte x) rest"
proof -
  from assms(2) have c: "\<not> unsafe_url_byte c"
    and "filter (\<lambda>x. \<not> unsafe_url_byte x) front = front"
    by (simp_all add: filter_id_conv)
  with assms(1) show ?thesis by (simp add: clean_url_def)
qed

lemma filtered_rest:
  assumes "rest = [] \<or> hd rest = CHR ''?'' \<or> hd rest = CHR ''#''"
  shows "filter (\<lambda>x. \<not> unsafe_url_byte x) rest = []
       \<or> hd (filter (\<lambda>x. \<not> unsafe_url_byte x) rest) = CHR ''?''
       \<or> hd (filter (\<lambda>x. \<not> unsafe_url_byte x) rest) = CHR ''#''"
  using assms by (cases rest) (auto simp: unsafe_url_byte_def)

lemma excluded:
  "\<forall>c \<in> set xs. Q c \<and> c \<notin> set bad \<Longrightarrow> b \<in> set bad \<Longrightarrow> b \<notin> set xs"
  by blast

subsection \<open>The first dataset without a connection\<close>

lemma first_dataset:
  "DATASET_URLS = hd DATASET_URLS # tl DATASET_URLS"
  "os_path_join ''downloaded_datasets'' (filename_of (hd DATASET_URLS)) =
     ''downloaded_datasets/RGB_D_Rat_Behavioral_Dataset_AnnotatedSection.zip''"
  by code_simp+

lemma videos_path_not_first_dataset:
  "render_outtmpl (os_path_join ''downloaded_videos'' ''%(title)s.%(ext)s'') title ext
     \<noteq> ''downloaded_datasets/RGB_D_Rat_Behavioral_Dataset_AnnotatedSection.zip''"
  by (simp add: os_path_join_def render_outtmpl_plain)

lemma main_first_connection_fails:
  assumes "\<forall>c. fs s ''downloaded_videos'' \<noteq> Some (File c)"
    and "\<forall>c. fs s ''downloaded_datasets'' \<noteq> Some (File c)"
    and "fs s (os_path_join ''downloaded_datasets'' (filename_of (hd DATASET_URLS))) = None"
    and "net (hd DATASET_URLS) = ConnectionFails"
  shows "fst (main yt net s) = Inl ConnectionError"
proof -
  let ?dd = "''downloaded_datasets''"
  let ?p = "os_path_join ?dd (filename_of (hd DATASET_URLS))"
  have p: "?p \<noteq> ''downloaded_videos''" "?p \<noteq> ?dd"
    by (simp_all add: first_dataset(2))
  have "\<forall>title ext.
      render_outtmpl (os_path_join ''downloaded_videos'' ''%(title)s.%(ext)s'') title ext \<noteq> ?p"
    using videos_path_not_first_dataset by (simp add: first_dataset(2))
  from download_videos_frame [OF assms(1) p(1) this, of yt]
  obtain s1 where v: "download_videos yt VIDEO_URLS ''downloaded_videos'' s = (Inr (), s1)"
    and fresh1: "fs s1 ?p = fs s ?p" by blast
  have "?dd \<noteq> ''downloaded_videos''" by simp
  from download_videos_frame [OF assms(1) this, of yt] videos_path_not_datasets v
  have "fs s1 ?dd = fs s ?dd" by auto
  with assms(2) have "\<forall>c. fs s1 ?dd \<noteq> Some (File c)" by simp
  from makedirs_succeeds [OF this] obtain s0 where mk: "makedirs ?dd s1 = (Inr (), s0)"
    and same: "\<forall>q. q \<noteq> ?dd \<longrightarrow> fs s0 q = fs s1 q" by blast
  from same p(2) fresh1 assms(3) have "\<not> os_path_exists ?p s0"
    by (simp add: os_path_exists_def)
  from download_file_no_reply [where net = net, OF mk this assms(4)]
  have "fst (download_file net (hd DATASET_URLS) ?dd s1) = Inl ConnectionError" by simp
  then have "fst (dataset_loop net (hd DATASET_URLS # tl DATASET_URLS) s1) = Inl ConnectionError"
    by (cases "download_file net (hd DATASET_URLS) ?dd s1") simp
  with first_dataset(1) have "fst (dataset_loop net DATASET_URLS s1) = Inl ConnectionError"
    by simp
  with v show ?thesis by (simp add: main_def)
qed

subsection \<open>Facts about the sample inputs\<close>

lemma archive_name: "filename_of archive_url = ''a.zip''"
  by code_simp

lemma archive_join: "os_path_join ''d'' ''a.zip'' = ''d/a.zip''"
  by (simp add: os_path_join_def)

lemma archive_path: "os_path_join ''d'' (filename_of archive_url) = ''d/a.zip''"
  by (simp add: archive_name archive_join)

lemma makedirs_fresh:
  "makedirs ''d'' (world_of []) = (Inr (), world_of [(''d'', Dir)])"
  by (simp add: makedirs_def world_of_def)

lemma fresh_path: "\<not> os_path_exists (os_path_join ''d'' (filename_of archive_url)) (world_of [(''d'', Dir)])"
  by (simp add: archive_path os_path_exists_def world_of_def)

section \<open>The claims\<close>

subsection \<open>Skipping what is there\<close>

text \<open>
  \<^bold>\<open>Claim C1.\<close> If the destination folder is a directory that already holds a file under the name
  derived from the URL, \<^verbatim>\<open>download_file\<close> returns that path at once: the network log and
  the file system stay as they are, and one line goes to the console. Consequently, after
  any run that returned a path, a later run for the same URL, whatever the network then
  answers, is such a skip, so the file is never written again.
\<close>

theorem download_file_skips_existing:
  "(fs s dest = Some Dir \<and> fs s (os_path_join dest (filename_of url)) = Some (File c) \<longrightarrow>
      download_file net url dest s =
        (Inr (os_path_join dest (filename_of url)),
         s\<lparr>stdout := stdout s @ [InfoExists (filename_of url)]\<rparr>))
   \<and> (download_file net url dest s = (Inr p, s1) \<longrightarrow>
        (\<forall>net'. download_file net' url dest s1 =
                  (Inr p, s1\<lparr>stdout := stdout s1 @ [InfoExists (filename_of url)]\<rparr>)))"
proof (intro conjI impI allI)
  assume a: "fs s dest = Some Dir \<and> fs s (os_path_join dest (filename_of url)) = Some (File c)"
  then have "makedirs dest s = (Inr (), s)" by (simp add: makedirs_Dir)
  moreover from a have "os_path_exists (os_path_join dest (filename_of url)) s"
    by (simp add: os_path_exists_def)
  ultimately show "download_file net url dest s =
        (Inr (os_path_join dest (filename_of url)),
         s\<lparr>stdout := stdout s @ [InfoExists (filename_of url)]\<rparr>)"
    by (simp add: download_file_skip print_def)
next
  fix net'
  assume run: "download_file net url dest s = (Inr p, s1)"
  note facts = download_file_success [OF run]
  from facts(2) have "makedirs dest s1 = (Inr (), s1)" by (rule makedirs_Dir)
  moreover from facts(1,3) have "os_path_exists (os_path_join dest (filename_of url)) s1" by simp
  ultimately show "download_file net' url dest s1 =
                  (Inr p, s1\<lparr>stdout := stdout s1 @ [InfoExists (filename_of url)]\<rparr>)"
    using facts(1) by (simp add: download_file_skip print_def)
qed

text \<open>A skip of an old file, and a download followed by a second run without network.\<close>

theorem download_file_skips_existing_witness:
  "download_file offline archive_url ''d'' (world_of [(''d'', Dir), (''d/a.zip'', File ''old'')]) =
     (Inr ''d/a.zip'',
      (world_of [(''d'', Dir), (''d/a.zip'', File ''old'')])\<lparr>stdout := [InfoExists ''a.zip'']\<rparr>)
   \<and> fst (download_file (serve (reply_with 200 None ''abcd'')) archive_url ''d'' (world_of []))
       = Inr ''d/a.zip''
   \<and> fs (snd (download_file offline archive_url ''d''
          (snd (download_file (serve (reply_with 200 None ''abcd'')) archive_url ''d'' (world_of [])))))
        ''d/a.zip'' = Some (File ''abcd'')"
proof -
  let ?w = "world_of [(''d'', Dir), (''d/a.zip'', File ''old'')]"
  let ?run = "download_file (serve (reply_with 200 None ''abcd'')) archive_url ''d'' (world_of [])"
  have pre: "fs ?w ''d'' = Some Dir
           \<and> fs ?w (os_path_join ''d'' (filename_of archive_url)) = Some (File ''old'')"
    by (simp add: archive_path world_of_def)
  have first: "download_file offline archive_url ''d'' ?w =
     (Inr ''d/a.zip'', ?w\<lparr>stdout := [InfoExists ''a.zip'']\<rparr>)"
    using download_file_skips_existing [of ?w "''d''" archive_url "''old''" offline] pre
    by (simp add: archive_join archive_name world_of_def)
  have t: "total_size_of (reply_with 200 None ''abcd'') = Inr 0"
    by (simp add: total_size_of_def reply_with_def)
  have run: "?run = (fst ?run, snd ?run)" by simp
  note tr = download_file_transfer(1,2) [where net = "serve (reply_with 200 None ''abcd'')",
      OF makedirs_fresh fresh_path _ _ t run]
  have ok: "fst ?run = Inr ''d/a.zip''"
    and written: "fs (snd ?run) ''d/a.zip'' = Some (File ''abcd'')"
    using tr by (simp_all add: serve_def reply_with_def archive_path)
  from ok have "?run = (Inr ''d/a.zip'', snd ?run)" by (simp add: prod_eq_iff)
  with download_file_skips_existing [of "world_of []" "''d''" archive_url c
      "serve (reply_with 200 None ''abcd'')" "''d/a.zip''" "snd ?run"]
  have "download_file offline archive_url ''d'' (snd ?run) =
          (Inr ''d/a.zip'', (snd ?run)\<lparr>stdout := stdout (snd ?run) @ [InfoExists (filename_of archive_url)]\<rparr>)"
    by blast
  with written have "fs (snd (download_file offline archive_url ''d'' (snd ?run))) ''d/a.zip''
      = Some (File ''abcd'')" by simp
  with first ok show ?thesis by simp
qed

subsection \<open>HTTP errors\<close>

text \<open>
  \<^bold>\<open>Claim C2.\<close> When the server answers the URL with a status from 400 to 599, a run of
  \<^verbatim>\<open>download_file\<close> leaves every regular file as it was and creates none; if the run
  contacted the server at all, it raised \<^verbatim>\<open>HTTPError\<close> with that status, and it does
  contact the server whenever the folder can be made and nothing exists at the destination
  path.
\<close>

theorem download_file_http_error:
  assumes "net url = Responds r" and "400 \<le> status r" and "status r < 600"
    and "download_file net url dest s = (res, s')"
  shows "(\<forall>p c. fs s' p = Some (File c) \<longrightarrow> fs s p = Some (File c))
       \<and> (requested s' \<noteq> requested s \<longrightarrow> res = Inl (HTTPError (status r)))
       \<and> (\<forall>s0. makedirs dest s = (Inr (), s0)
                \<and> \<not> os_path_exists (os_path_join dest (filename_of url)) s0 \<longrightarrow>
              res = Inl (HTTPError (status r)) \<and> requested s' = requested s @ [url])"
proof (cases "makedirs dest s")
  case (Pair m s0)
  show ?thesis
  proof (cases m)
    case (Inl e)
    with Pair assms(4) have "s' = s0" by (simp add: download_file_makedirs_fails)
    moreover from Pair Inl have "s0 = s" by (simp add: makedirs_error)
    ultimately show ?thesis using Pair Inl by simp
  next
    case (Inr u)
    with Pair have mk: "makedirs dest s = (Inr (), s0)" by simp
    note files = makedirs_files [OF mk]
    show ?thesis
    proof (cases "os_path_exists (os_path_join dest (filename_of url)) s0")
      case True
      from download_file_skip [OF mk True, of net] assms(4)
      have "res = Inr (os_path_join dest (filename_of url))"
        and "s' = print (InfoExists (filename_of url)) s0" by simp_all
      with files makedirs_ok(3) [OF mk] mk True show ?thesis by (simp add: print_def)
    next
      case False
      from assms(2,3) have "400 \<le> status r \<and> status r < 600" by simp
      from download_file_status [where net = net, OF mk False assms(1) this] assms(4)
      have "res = Inl (HTTPError (status r))"
        and "s' = s0\<lparr>stdout := stdout s0 @ [InfoDownloading url],
                     requested := requested s0 @ [url]\<rparr>" by simp_all
      with files makedirs_ok(3) [OF mk] show ?thesis by simp
    qed
  qed
qed

theorem download_file_http_error_witness:
  "fst (download_file (serve (reply_with 404 None ''gone'')) archive_url ''d'' (world_of []))
     = Inl (HTTPError 404)
   \<and> requested (snd (download_file (serve (reply_with 404 None ''gone'')) archive_url ''d''
        (world_of []))) = [archive_url]
   \<and> (\<forall>p c. fs (snd (download_file (serve (reply_with 404 None ''gone'')) archive_url ''d''
        (world_of []))) p \<noteq> Some (File c))"
proof -
  let ?net = "serve (reply_with 404 None ''gone'')"
  let ?run = "download_file ?net archive_url ''d'' (world_of [])"
  have r: "?net archive_url = Responds (reply_with 404 None ''gone'')" by (simp add: serve_def)
  have lo: "400 \<le> status (reply_with 404 None ''gone'')"
    and hi: "status (reply_with 404 None ''gone'') < 600" by (simp_all add: reply_with_def)
  have run: "?run = (fst ?run, snd ?run)" by simp
  from download_file_http_error [where net = ?net, OF r lo hi run] makedirs_fresh fresh_path
  show ?thesis by (simp add: reply_with_def world_of_def)
qed

text \<open>
  \<^bold>\<open>Claim C3.\<close> As stated (no failure of a single download ends the process abnormally)
  this does not hold: the loop over the dataset URLs catches \<^verbatim>\<open>requests.HTTPError\<close> only.
  What holds of every run of \<^verbatim>\<open>main\<close>:
  \<^item> no \<^verbatim>\<open>HTTPError\<close> leaves it;
  \<^item> if it returns normally, every dataset URL was dealt with: the console has its skip
    line or its start line, so an error of one URL did not end the loop;
  \<^item> if the two destination folders can be made and every dataset URL is answered with a
    status from 400 to 599, it returns normally with exit status 0, whatever \<^verbatim>\<open>yt_dlp\<close>
    does with the video URLs, and every dataset URL has its error line or its skip line;
  \<^item> if the two folders can be made, nothing exists at the destination of the first
    dataset and the request for it finds no connection, \<^verbatim>\<open>requests.ConnectionError\<close>
    leaves \<^verbatim>\<open>main\<close>: exit status 1.
\<close>

theorem main_survives_http_errors:
  assumes "main yt net s = (res, s')"
  shows "(\<forall>code. res \<noteq> Inl (HTTPError code))
    \<and> (res = Inr () \<longrightarrow>
         (\<forall>url \<in> set DATASET_URLS.
             InfoExists (filename_of url) \<in> set (drop (length (stdout s)) (stdout s'))
           \<or> InfoDownloading url \<in> set (drop (length (stdout s)) (stdout s'))))
    \<and> ((\<forall>c. fs s ''downloaded_videos'' \<noteq> Some (File c))
       \<and> (\<forall>c. fs s ''downloaded_datasets'' \<noteq> Some (File c))
       \<and> (\<forall>url \<in> set DATASET_URLS. \<exists>r. net url = Responds r
              \<and> 400 \<le> status r \<and> status r < 600)
       \<longrightarrow> res = Inr () \<and> exit_code res = 0
         \<and> (\<forall>url \<in> set DATASET_URLS. \<forall>r. net url = Responds r \<longrightarrow>
               ErrorDataset url (HTTPError (status r))
                 \<in> set (drop (length (stdout s)) (stdout s'))
             \<or> InfoExists (filename_of url) \<in> set (drop (length (stdout s)) (stdout s'))))
    \<and> ((\<forall>c. fs s ''downloaded_videos'' \<noteq> Some (File c))
       \<and> (\<forall>c. fs s ''downloaded_datasets'' \<noteq> Some (File c))
       \<and> fs s (os_path_join ''downloaded_datasets'' (filename_of (hd DATASET_URLS))) = None
       \<and> net (hd DATASET_URLS) = ConnectionFails
       \<longrightarrow> res = Inl ConnectionError \<and> exit_code res = 1)"
proof (intro conjI impI allI)
  obtain rv s1 where v: "download_videos yt VIDEO_URLS ''downloaded_videos'' s = (rv, s1)"
    by (cases "download_videos yt VIDEO_URLS ''downloaded_videos'' s")
  from download_videos_stdout_grows [OF v] obtain dv where dv: "stdout s1 = stdout s @ dv" ..
  fix code
  show "res \<noteq> Inl (HTTPError code)"
  proof (cases rv)
    case (Inl e)
    with v have "e = FileExistsError" by (simp add: download_videos_errors)
    with v Inl assms show ?thesis by (auto simp: main_def)
  next
    case (Inr u)
    with v assms have "res = fst (dataset_loop net DATASET_URLS s1)" by (simp add: main_def)
    then show ?thesis by (simp add: dataset_loop_no_http_error)
  qed
next
  obtain rv s1 where v: "download_videos yt VIDEO_URLS ''downloaded_videos'' s = (rv, s1)"
    by (cases "download_videos yt VIDEO_URLS ''downloaded_videos'' s")
  from download_videos_stdout_grows [OF v] obtain dv where dv: "stdout s1 = stdout s @ dv" ..
  assume ok: "res = Inr ()"
  have loop: "dataset_loop net DATASET_URLS s1 = (res, s')"
  proof (cases rv)
    case (Inl e)
    with v assms ok show ?thesis by (simp add: main_def)
  next
    case (Inr u)
    with v assms show ?thesis by (simp add: main_def)
  qed
  from dataset_loop_console [OF loop] ok obtain d where d: "stdout s' = stdout s1 @ d"
    and all: "\<forall>url \<in> set DATASET_URLS. InfoExists (filename_of url) \<in> set d
                                    \<or> InfoDownloading url \<in> set d"
    by blast
  from d dv have "drop (length (stdout s)) (stdout s') = dv @ d" by simp
  with all show "\<forall>url \<in> set DATASET_URLS.
             InfoExists (filename_of url) \<in> set (drop (length (stdout s)) (stdout s'))
           \<or> InfoDownloading url \<in> set (drop (length (stdout s)) (stdout s'))"
    by auto
next
  assume a: "(\<forall>c. fs s ''downloaded_videos'' \<noteq> Some (File c))
       \<and> (\<forall>c. fs s ''downloaded_datasets'' \<noteq> Some (File c))
       \<and> (\<forall>url \<in> set DATASET_URLS. \<exists>r. net url = Responds r
              \<and> 400 \<le> status r \<and> status r < 600)"
  from a download_videos_in_main [of s yt]
  obtain s1 where v: "download_videos yt VIDEO_URLS ''downloaded_videos'' s = (Inr (), s1)"
    and same: "fs s1 ''downloaded_datasets'' = fs s ''downloaded_datasets''" by blast
  from download_videos_stdout_grows [OF v] obtain dv where dv: "stdout s1 = stdout s @ dv" ..
  from v assms have loop: "dataset_loop net DATASET_URLS s1 = (res, s')" by (simp add: main_def)
  from a same have "\<forall>c. fs s1 ''downloaded_datasets'' \<noteq> Some (File c)" by simp
  from dataset_loop_all_errors [OF this _ loop] a
  obtain d where res: "res = Inr ()" and d: "stdout s' = stdout s1 @ d"
    and all: "\<forall>url \<in> set DATASET_URLS. \<forall>r. net url = Responds r \<longrightarrow>
                  ErrorDataset url (HTTPError (status r)) \<in> set d
                \<or> InfoExists (filename_of url) \<in> set d"
    by blast
  from d dv have new: "drop (length (stdout s)) (stdout s') = dv @ d" by simp
  show "res = Inr ()" by (rule res)
  then show "exit_code res = 0" by (simp add: exit_code_def)
  from all new show "\<forall>url \<in> set DATASET_URLS. \<forall>r. net url = Responds r \<longrightarrow>
               ErrorDataset url (HTTPError (status r))
                 \<in> set (drop (length (stdout s)) (stdout s'))
             \<or> InfoExists (filename_of url) \<in> set (drop (length (stdout s)) (stdout s'))"
    by auto
next
  assume a: "(\<forall>c. fs s ''downloaded_videos'' \<noteq> Some (File c))
       \<and> (\<forall>c. fs s ''downloaded_datasets'' \<noteq> Some (File c))
       \<and> fs s (os_path_join ''downloaded_datasets'' (filename_of (hd DATASET_URLS))) = None
       \<and> net (hd DATASET_URLS) = ConnectionFails"
  then have "fst (main yt net s) = Inl ConnectionError"
    by (intro main_first_connection_fails) blast+
  with assms show "res = Inl ConnectionError" by simp
  then show "exit_code res = 1" by (simp add: exit_code_def)
qed

text \<open>Every dataset URL answered with 404 and a failing video; then no connection at all.\<close>

theorem main_survives_http_errors_witness:
  "fst (main (Some two_videos) (serve (reply_with 404 None ''gone'')) (world_of [])) = Inr ()
   \<and> exit_code (fst (main (Some two_videos) (serve (reply_with 404 None ''gone'')) (world_of []))) = 0
   \<and> (ErrorDataset (last DATASET_URLS) (HTTPError 404)
          \<in> set (stdout (snd (main (Some two_videos) (serve (reply_with 404 None ''gone''))
                            (world_of []))))
      \<or> InfoExists (filename_of (last DATASET_URLS))
          \<in> set (stdout (snd (main (Some two_videos) (serve (reply_with 404 None ''gone''))
                            (world_of [])))))
   \<and> fst (main (Some two_videos) offline (world_of [])) = Inl ConnectionError
   \<and> exit_code (fst (main (Some two_videos) offline (world_of []))) = 1"
proof -
  let ?net = "serve (reply_with 404 None ''gone'')"
  let ?run = "main (Some two_videos) ?net (world_of [])"
  let ?off = "main (Some two_videos) offline (world_of [])"
  have run: "?run = (fst ?run, snd ?run)" and off: "?off = (fst ?off, snd ?off)" by simp_all
  have folders: "\<forall>c. fs (world_of []) ''downloaded_videos'' \<noteq> Some (File c)"
    "\<forall>c. fs (world_of []) ''downloaded_datasets'' \<noteq> Some (File c)"
    by (simp_all add: world_of_def)
  have all404: "\<forall>url \<in> set DATASET_URLS. \<exists>r. ?net url = Responds r
              \<and> 400 \<le> status r \<and> status r < 600"
    by (simp add: serve_def reply_with_def)
  have last: "last DATASET_URLS \<in> set DATASET_URLS" by (simp add: DATASET_URLS_def)
  have r: "?net (last DATASET_URLS) = Responds (reply_with 404 None ''gone'')"
    by (simp add: serve_def)
  have fresh: "fs (world_of [])
      (os_path_join ''downloaded_datasets'' (filename_of (hd DATASET_URLS))) = None"
    by (simp add: world_of_def)
  have down: "offline (hd DATASET_URLS) = ConnectionFails" by (simp add: offline_def)
  have dropped: "drop (length (stdout (world_of []))) (stdout (snd ?run)) = stdout (snd ?run)"
    by (simp add: world_of_def)
  from main_survives_http_errors [OF run, unfolded dropped] folders all404
  have "fst ?run = Inr ()" and "exit_code (fst ?run) = 0"
    and "\<forall>url \<in> set DATASET_URLS. \<forall>r. ?net url = Responds r \<longrightarrow>
               ErrorDataset url (HTTPError (status r)) \<in> set (stdout (snd ?run))
             \<or> InfoExists (filename_of url) \<in> set (stdout (snd ?run))"
    by blast+
  with last r have "fst ?run = Inr () \<and> exit_code (fst ?run) = 0
      \<and> (ErrorDataset (last DATASET_URLS) (HTTPError (status (reply_with 404 None ''gone'')))
            \<in> set (stdout (snd ?run))
         \<or> InfoExists (filename_of (last DATASET_URLS)) \<in> set (stdout (snd ?run)))"
    by blast
  then have "fst ?run = Inr () \<and> exit_code (fst ?run) = 0
      \<and> (ErrorDataset (last DATASET_URLS) (HTTPError 404) \<in> set (stdout (snd ?run))
         \<or> InfoExists (filename_of (last DATASET_URLS)) \<in> set (stdout (snd ?run)))"
    by (simp add: reply_with_def exit_code_def)
  moreover
  from main_survives_http_errors [OF off] folders fresh down
  have "fst ?off = Inl ConnectionError \<and> exit_code (fst ?off) = 1" by blast
  ultimately show ?thesis by blast
qed

text \<open>
  Without a network connection the first dataset download raises
  \<^verbatim>\<open>requests.ConnectionError\<close>, which no handler catches: exit status 1.
\<close>

theorem main_connection_error_counterexample:
  "fst (main None offline (world_of [])) = Inl ConnectionError
   \<and> exit_code (fst (main None offline (world_of []))) = 1"
  by code_simp

subsection \<open>Progress output and file content\<close>

text \<open>
  \<^bold>\<open>Claim C4.\<close> In a run that transfers a body (the folder can be made, nothing exists at the
  destination path, the status is no error status): when the total size is a nonzero
  integer, the console receives, between the start line and a line break, one percentage
  for each chunk of 8192 bytes, namely the bytes received so far times 100 divided by the
  total; with \<^verbatim>\<open>Content-Length: 1000\<close> and a body of 1000 bytes that is the single
  percentage 100; without a \<^verbatim>\<open>Content-Length\<close> header there is no percentage at all.
\<close>

theorem download_file_progress:
  assumes "makedirs dest s = (Inr (), s0)"
    and "\<not> os_path_exists (os_path_join dest (filename_of url)) s0"
    and "net url = Responds r" and "status r < 400 \<or> 600 \<le> status r"
    and "download_file net url dest s = (res, s')"
  shows "(\<forall>t. total_size_of r = Inr t \<and> t \<noteq> 0 \<longrightarrow>
            stdout s' = stdout s @ [InfoDownloading url]
              @ map (\<lambda>downloaded. Progress (filename_of url) (of_int downloaded * 100 / of_int t))
                  (cumulative (iter_content 8192 (body r)))
              @ [Newline, InfoFinished (filename_of url)])
       \<and> (content_length r = Some ''1000'' \<and> length (body r) = 1000 \<longrightarrow>
            stdout s' = stdout s @ [InfoDownloading url, Progress (filename_of url) 100,
                                    Newline, InfoFinished (filename_of url)])
       \<and> (content_length r = None \<longrightarrow>
            stdout s' = stdout s @ [InfoDownloading url, InfoFinished (filename_of url)])"
proof -
  from assms(4) have ok: "\<not> (400 \<le> status r \<and> status r < 600)" by auto
  note out = download_file_transfer(3) [where net = net, OF assms(1,2,3) ok _ assms(5)]
  have o0: "stdout s0 = stdout s" using assms(1) by (rule makedirs_ok)
  have general: "stdout s' = stdout s @ [InfoDownloading url]
              @ map (\<lambda>downloaded. Progress (filename_of url) (of_int downloaded * 100 / of_int t))
                  (cumulative (iter_content 8192 (body r)))
              @ [Newline, InfoFinished (filename_of url)]"
    if "total_size_of r = Inr t" and "t \<noteq> 0" for t
    using out [OF that(1)] that(2) o0 by (simp add: percent_of_def)
  have single: "stdout s' = stdout s @ [InfoDownloading url, Progress (filename_of url) 100,
                                    Newline, InfoFinished (filename_of url)]"
    if "content_length r = Some ''1000''" and "length (body r) = 1000"
  proof -
    from that(1) have t: "total_size_of r = Inr 1000"
      by (simp add: total_size_of_def py_int_1000)
    from that(2) have "body r \<noteq> []" by auto
    with that(2) have "iter_content 8192 (body r) = [body r]"
      by (simp add: iter_content_single)
    with that(2) have "cumulative (iter_content 8192 (body r)) = [1000]"
      by (simp add: cumulative_def)
    with general [OF t] show ?thesis by simp
  qed
  have none: "stdout s' = stdout s @ [InfoDownloading url, InfoFinished (filename_of url)]"
    if "content_length r = None"
  proof -
    from that have "total_size_of r = Inr 0" by (simp add: total_size_of_def)
    from out [OF this] o0 show ?thesis by simp
  qed
  from general single none show ?thesis by blast
qed

theorem download_file_progress_witness:
  "stdout (snd (download_file (serve (reply_with 200 (Some ''1000'') (replicate 1000 (CHR ''x''))))
      archive_url ''d'' (world_of [])))
     = [InfoDownloading archive_url, Progress ''a.zip'' 100, Newline, InfoFinished ''a.zip'']
   \<and> stdout (snd (download_file (serve (reply_with 200 None (replicate 1000 (CHR ''x''))))
      archive_url ''d'' (world_of [])))
     = [InfoDownloading archive_url, InfoFinished ''a.zip'']"
proof -
  let ?r1 = "reply_with 200 (Some ''1000'') (replicate 1000 (CHR ''x''))"
  let ?r2 = "reply_with 200 None (replicate 1000 (CHR ''x''))"
  let ?run1 = "download_file (serve ?r1) archive_url ''d'' (world_of [])"
  let ?run2 = "download_file (serve ?r2) archive_url ''d'' (world_of [])"
  have s1: "status ?r1 < 400 \<or> 600 \<le> status ?r1" and s2: "status ?r2 < 400 \<or> 600 \<le> status ?r2"
    by (simp_all add: reply_with_def)
  have n1: "serve ?r1 archive_url = Responds ?r1" and n2: "serve ?r2 archive_url = Responds ?r2"
    by (simp_all add: serve_def)
  have run1: "?run1 = (fst ?run1, snd ?run1)" and run2: "?run2 = (fst ?run2, snd ?run2)" by simp_all
  have h1: "content_length ?r1 = Some ''1000'' \<and> length (body ?r1) = 1000"
    and h2: "content_length ?r2 = None"
    by (simp_all add: reply_with_def)
  from download_file_progress [where net = "serve ?r1", OF makedirs_fresh fresh_path n1 s1 run1] h1
  have "stdout (snd ?run1) = stdout (world_of []) @ [InfoDownloading archive_url,
          Progress (filename_of archive_url) 100, Newline, InfoFinished (filename_of archive_url)]"
    by blast
  moreover
  from download_file_progress [where net = "serve ?r2", OF makedirs_fresh fresh_path n2 s2 run2] h2
  have "stdout (snd ?run2) = stdout (world_of []) @ [InfoDownloading archive_url,
          InfoFinished (filename_of archive_url)]"
    by blast
  ultimately show ?thesis by (simp add: archive_name world_of_def)
qed

text \<open>
  \<^bold>\<open>Claim C5.\<close> The claim ends with a partial file from an interrupted run being started
  again from byte zero, and the documentation of the module (lines 36 to 39) says that
  running the script again completes such a file. The code does neither. With the first
  two bytes of a body of four at the destination path and a server that would deliver the
  body, \<^verbatim>\<open>download_file\<close> returns the path, asks no server and leaves the two bytes as
  they are: the check of lines 67 to 69 takes any existing file for a complete one.
\<close>

theorem download_file_partial_file_skipped:
  "fst (download_file (serve (reply_with 200 None ''abcd'')) archive_url ''d''
        (world_of [(''d'', Dir), (''d/a.zip'', File ''ab'')])) = Inr ''d/a.zip''
   \<and> fs (snd (download_file (serve (reply_with 200 None ''abcd'')) archive_url ''d''
        (world_of [(''d'', Dir), (''d/a.zip'', File ''ab'')]))) ''d/a.zip'' = Some (File ''ab'')
   \<and> requested (snd (download_file (serve (reply_with 200 None ''abcd'')) archive_url ''d''
        (world_of [(''d'', Dir), (''d/a.zip'', File ''ab'')]))) = []"
proof -
  let ?w = "world_of [(''d'', Dir), (''d/a.zip'', File ''ab'')]"
  have mk: "makedirs ''d'' ?w = (Inr (), ?w)" by (simp add: makedirs_def world_of_def)
  have ex: "os_path_exists (os_path_join ''d'' (filename_of archive_url)) ?w"
    by (simp add: archive_path os_path_exists_def world_of_def)
  from download_file_skip [OF mk ex, of "serve (reply_with 200 None ''abcd'')"]
  show ?thesis by (simp add: print_def world_of_def archive_path)
qed

text \<open>
  \<^bold>\<open>Claim C9.\<close> In a run that transfers a body: when the \<^verbatim>\<open>Content-Length\<close> header is absent or
  parses to 0, the console receives the start line and the final line only, and the file
  holds the body; and for every parsed total, the line break after the transfer is written
  exactly when the total is nonzero, and a percentage is written exactly when the total is
  nonzero and the body is not empty.
\<close>

theorem download_file_zero_total:
  assumes "makedirs dest s = (Inr (), s0)"
    and "\<not> os_path_exists (os_path_join dest (filename_of url)) s0"
    and "net url = Responds r" and "status r < 400 \<or> 600 \<le> status r"
    and "download_file net url dest s = (res, s')"
  shows "(content_length r = None \<or> (\<exists>v. content_length r = Some v \<and> py_int v = Inr 0) \<longrightarrow>
            stdout s' = stdout s @ [InfoDownloading url, InfoFinished (filename_of url)]
          \<and> fs s' (os_path_join dest (filename_of url)) = Some (File (body r)))
       \<and> (\<forall>t. total_size_of r = Inr t \<longrightarrow>
            (Newline \<in> set (drop (length (stdout s)) (stdout s')) \<longleftrightarrow> t \<noteq> 0)
          \<and> ((\<exists>name percent. Progress name percent \<in> set (drop (length (stdout s)) (stdout s')))
                \<longleftrightarrow> t \<noteq> 0 \<and> body r \<noteq> []))"
proof -
  from assms(4) have ok: "\<not> (400 \<le> status r \<and> status r < 600)" by auto
  note out = download_file_transfer(3) [where net = net, OF assms(1,2,3) ok _ assms(5)]
  note written = download_file_transfer(2) [where net = net, OF assms(1,2,3) ok _ assms(5)]
  have o0: "stdout s0 = stdout s" using assms(1) by (rule makedirs_ok)
  have zero: "stdout s' = stdout s @ [InfoDownloading url, InfoFinished (filename_of url)]
          \<and> fs s' (os_path_join dest (filename_of url)) = Some (File (body r))"
    if "content_length r = None \<or> (\<exists>v. content_length r = Some v \<and> py_int v = Inr 0)"
  proof -
    from that have t: "total_size_of r = Inr 0" by (auto simp: total_size_of_def)
    from out [OF t] written [OF t] o0 show ?thesis by simp
  qed
  have branch: "(Newline \<in> set (drop (length (stdout s)) (stdout s')) \<longleftrightarrow> t \<noteq> 0)
          \<and> ((\<exists>name percent. Progress name percent \<in> set (drop (length (stdout s)) (stdout s')))
                \<longleftrightarrow> t \<noteq> 0 \<and> body r \<noteq> [])"
    if t: "total_size_of r = Inr t" for t
  proof (cases "t = 0")
    case True
    with out [OF t] o0 show ?thesis by simp
  next
    case False
    define cum where "cum = cumulative (iter_content (8 * 1024) (body r))"
    have empty: "cum = [] \<longleftrightarrow> body r = []"
      using cumulative_length [of "iter_content (8 * 1024) (body r)"]
        iter_content_Nil_iff [of "8 * 1024" "body r"] by (auto simp: cum_def)
    from False out [OF t] o0
    have new: "drop (length (stdout s)) (stdout s') =
        InfoDownloading url # map (\<lambda>x. Progress (filename_of url) (percent_of x t)) cum
          @ [Newline, InfoFinished (filename_of url)]"
      by (simp add: cum_def)
    have "(\<exists>name percent. Progress name percent \<in> set (drop (length (stdout s)) (stdout s')))
            \<longleftrightarrow> cum \<noteq> []"
    proof (cases cum)
      case Nil
      with new show ?thesis by simp
    next
      case (Cons x xs)
      with new have "Progress (filename_of url) (percent_of x t)
                       \<in> set (drop (length (stdout s)) (stdout s'))" by simp
      with Cons show ?thesis by blast
    qed
    with new empty False show ?thesis by simp
  qed
  from zero branch show ?thesis by blast
qed

theorem download_file_zero_total_witness:
  "stdout (snd (download_file (serve (reply_with 200 (Some ''0'') ''abcd'')) archive_url ''d''
      (world_of []))) = [InfoDownloading archive_url, InfoFinished ''a.zip'']
   \<and> fs (snd (download_file (serve (reply_with 200 (Some ''0'') ''abcd'')) archive_url ''d''
      (world_of []))) ''d/a.zip'' = Some (File ''abcd'')
   \<and> Newline \<in> set (stdout (snd (download_file (serve (reply_with 200 (Some ''4'') ''abcd''))
      archive_url ''d'' (world_of []))))"
proof -
  let ?r1 = "reply_with 200 (Some ''0'') ''abcd''"
  let ?r2 = "reply_with 200 (Some ''4'') ''abcd''"
  let ?run1 = "download_file (serve ?r1) archive_url ''d'' (world_of [])"
  let ?run2 = "download_file (serve ?r2) archive_url ''d'' (world_of [])"
  have z: "py_int ''0'' = Inr 0" and f: "py_int ''4'' = Inr 4" by code_simp+
  have s1: "status ?r1 < 400 \<or> 600 \<le> status ?r1" and s2: "status ?r2 < 400 \<or> 600 \<le> status ?r2"
    by (simp_all add: reply_with_def)
  have n1: "serve ?r1 archive_url = Responds ?r1" and n2: "serve ?r2 archive_url = Responds ?r2"
    by (simp_all add: serve_def)
  have run1: "?run1 = (fst ?run1, snd ?run1)" and run2: "?run2 = (fst ?run2, snd ?run2)" by simp_all
  have h1: "content_length ?r1 = None \<or> (\<exists>v. content_length ?r1 = Some v \<and> py_int v = Inr 0)"
    using z by (simp add: reply_with_def)
  have h2: "total_size_of ?r2 = Inr 4" using f by (simp add: total_size_of_def reply_with_def)
  from download_file_zero_total [where net = "serve ?r1", OF makedirs_fresh fresh_path n1 s1 run1] h1
  have "stdout (snd ?run1) = stdout (world_of []) @ [InfoDownloading archive_url,
          InfoFinished (filename_of archive_url)]
      \<and> fs (snd ?run1) (os_path_join ''d'' (filename_of archive_url)) = Some (File (body ?r1))"
    by blast
  moreover
  from download_file_zero_total [where net = "serve ?r2", OF makedirs_fresh fresh_path n2 s2 run2] h2
  have "Newline \<in> set (drop (length (stdout (world_of []))) (stdout (snd ?run2)))"
    by simp
  ultimately show ?thesis by (simp add: archive_name archive_join world_of_def reply_with_def)
qed

subsection \<open>The file name\<close>

text \<open>
  \<^bold>\<open>Claim C6.\<close> Take a URL made of a scheme, \<^verbatim>\<open>://\<close>, a host of visible ASCII characters
  without \<^verbatim>\<open>/ ? # [ ]\<close>, one or more directories (visible ASCII without \<^verbatim>\<open>? #\<close>, from slash
  to slash), the percent-encoding of an ASCII name, optional parameters after a semicolon
  (for the schemes that have them) and an optional query or fragment. Its file name is
  that name, decoded, and \<^verbatim>\<open>downloaded_file\<close> when the name is empty. So the last path
  segment is percent-decoded, and query, fragment and parameters play no role.
\<close>

theorem url_filename_is_last_segment:
  assumes scheme: "sch \<noteq> []" "hd sch \<in> set (ascii_lowercase @ ascii_uppercase)"
      "set sch \<subseteq> set scheme_chars"
    and host: "\<forall>c \<in> set host. printable c \<and> c \<notin> set ''/?#[]''"
    and dirs: "dirs \<noteq> []" "hd dirs = CHR ''/''" "last dirs = CHR ''/''"
      "\<forall>c \<in> set dirs. printable c \<and> c \<notin> set ''?#''"
    and name: "\<forall>c \<in> set name. (of_char c :: nat) < 128"
    and params: "params = [] \<or> (hd params = CHR '';'' \<and> lower sch \<in> set uses_params)"
      "\<forall>c \<in> set params. printable c \<and> c \<notin> set ''/?#''"
    and rest: "rest = [] \<or> hd rest = CHR ''?'' \<or> hd rest = CHR ''#''"
  shows "filename_of (sch @ ''://'' @ host @ dirs @ percent_encode name @ params @ rest) =
           (if name = [] then ''downloaded_file'' else name)"
proof -
  define E where "E = percent_encode name"
  define rest' where "rest' = filter (\<lambda>x. \<not> unsafe_url_byte x) rest"
  define P where "P = dirs @ E @ params"
  define ds where "ds = butlast dirs"
  define U where "U = sch @ ''://'' @ host @ dirs @ E @ params @ rest"
  have dirs_eq: "dirs = ds @ ''/''"
    using dirs(1,3) append_butlast_last_id [of dirs] by (simp add: ds_def)
  have E_chars: "\<forall>c \<in> set E. \<not> unsafe_url_byte c \<and> c \<notin> set ''/?#;''"
    using percent_encode_set [of name] encoded_chars unfolding E_def by blast
  obtain c sch' where sch: "sch = c # sch'" using scheme(1) by (cases sch) auto
  have c: "\<not> c0_control_or_space c" "\<not> unsafe_url_byte c"
    using scheme(3) scheme_chars_safe by (auto simp: sch)
  have safe: "\<forall>x \<in> set (c # sch' @ ''://'' @ host @ P). \<not> unsafe_url_byte x"
  proof
    fix x assume "x \<in> set (c # sch' @ ''://'' @ host @ P)"
    then consider "x \<in> set sch" | "x \<in> set ''://''" | "x \<in> set host" | "x \<in> set dirs"
      | "x \<in> set E" | "x \<in> set params"
      by (auto simp: sch P_def)
    then show "\<not> unsafe_url_byte x"
    proof cases
      case 1 with scheme(3) scheme_chars_safe show ?thesis by blast
    next
      case 2 then show ?thesis by (auto simp: unsafe_url_byte_def)
    next
      case 3 with host printable_safe show ?thesis by blast
    next
      case 4 with dirs(4) printable_safe show ?thesis by blast
    next
      case 5 with E_chars show ?thesis by blast
    next
      case 6 with params(2) printable_safe show ?thesis by blast
    qed
  qed
  have "clean_url (c # (sch' @ ''://'' @ host @ P) @ rest)
          = c # (sch' @ ''://'' @ host @ P) @ rest'"
    unfolding rest'_def using c(1) safe by (rule clean_url_parts)
  then have clean: "clean_url U = sch @ CHR '':'' # (''//'' @ host @ P @ rest')"
    by (simp add: sch P_def U_def)
  have split1: "split_scheme (sch @ CHR '':'' # (''//'' @ host @ P @ rest'))
                  = (lower sch, ''//'' @ host @ P @ rest')"
    using scheme by (rule split_scheme_valid)
  have "b \<notin> set host" if "b \<in> set ''/?#[]''" for b
    using host that by (rule excluded)
  then have "\<forall>c \<in> set host. \<not> netloc_end c" by (auto simp: netloc_end_def)
  moreover have "P @ rest' = [] \<or> netloc_end (hd (P @ rest'))"
    using dirs(1,2) by (cases dirs) (auto simp: P_def netloc_end_def)
  ultimately have split2: "split_netloc (''//'' @ host @ P @ rest') = P @ rest'"
    by (rule split_netloc_host)
  have "CHR ''?'' \<notin> set dirs" "CHR ''#'' \<notin> set dirs"
    by (rule excluded [OF dirs(4)], simp)+
  moreover have "CHR ''?'' \<notin> set E" "CHR ''#'' \<notin> set E"
    by (rule excluded [OF E_chars], simp)+
  moreover have "CHR ''?'' \<notin> set params" "CHR ''#'' \<notin> set params"
    by (rule excluded [OF params(2)], simp)+
  ultimately have P_chars: "CHR ''?'' \<notin> set P" "CHR ''#'' \<notin> set P"
    by (simp_all add: P_def)
  have "rest' = [] \<or> hd rest' = CHR ''?'' \<or> hd rest' = CHR ''#''"
    unfolding rest'_def using rest by (rule filtered_rest)
  with P_chars have split3: "before (CHR ''?'') (before (CHR ''#'') (P @ rest')) = P"
    by (rule strip_query_fragment)
  have path: "urlparse_path U
        = (if lower sch \<in> set uses_params \<and> CHR '';'' \<in> set P then splitparams P else P)"
    by (simp only: urlparse_path_def clean split1 prod.case Let_def split2 split3)
  have seg: "CHR ''/'' \<notin> set E" "CHR '';'' \<notin> set E"
    by (rule excluded [OF E_chars], simp)+
  have "basename (urlparse_path U) = E"
  proof (cases params)
    case Nil
    then have P: "P = ds @ CHR ''/'' # E" by (simp add: P_def dirs_eq)
    have "splitparams P = P"
      unfolding P using seg by (rule splitparams_last(1) [where ps = "[]"]) simp
    then have "urlparse_path U = P"
      by (simp add: path)
    then show ?thesis by (simp add: basename_last_segment P last_segment_after_slash seg)
  next
    case (Cons p ps)
    have "CHR ''/'' \<notin> set params" by (rule excluded [OF params(2)]) simp
    with Cons params(1) have p: "p = CHR '';''" and uses: "lower sch \<in> set uses_params"
      and ps: "CHR ''/'' \<notin> set ps" by simp_all
    from Cons p have P: "P = ds @ CHR ''/'' # E @ CHR '';'' # ps" by (simp add: P_def dirs_eq)
    have "splitparams P = ds @ CHR ''/'' # E"
      unfolding P using seg ps by (rule splitparams_last(2))
    moreover have "CHR '';'' \<in> set P" by (simp add: P)
    ultimately have "urlparse_path U
        = ds @ CHR ''/'' # E"
      using uses by (simp add: path)
    then show ?thesis by (simp add: basename_last_segment last_segment_after_slash seg)
  qed
  moreover have "unquote E = name" unfolding E_def using name by (rule unquote_percent_encode)
  ultimately have "filename_of U = (if name = [] then ''downloaded_file'' else name)"
    by (simp add: filename_of_def Let_def)
  then show ?thesis by (simp add: U_def E_def)
qed

text \<open>
  The URL of the specification; a name with an encoded slash, with parameters and a
  fragment; and an empty last segment.
\<close>

theorem url_filename_is_last_segment_witness:
  "filename_of ''https://host/path/File%20Name.zip?download=1'' = ''File Name.zip''
   \<and> filename_of ''https://host/path/a%2Fb.zip;type=a#top'' = ''a/b.zip''
   \<and> filename_of ''https://host/path/?download=1'' = ''downloaded_file''"
proof -
  have s: "''https'' \<noteq> []" "hd ''https'' \<in> set (ascii_lowercase @ ascii_uppercase)"
    "set ''https'' \<subseteq> set scheme_chars"
    by (simp_all add: ascii_lowercase_def ascii_uppercase_def scheme_chars_def)
  have h: "\<forall>c \<in> set ''host''. printable c \<and> c \<notin> set ''/?#[]''"
    by (simp add: printable_def)
  have d: "''/path/'' \<noteq> []" "hd ''/path/'' = CHR ''/''" "last ''/path/'' = CHR ''/''"
    "\<forall>c \<in> set ''/path/''. printable c \<and> c \<notin> set ''?#''"
    by (simp_all add: printable_def)
  have n1: "\<forall>c \<in> set ''File Name.zip''. (of_char c :: nat) < 128"
    and n2: "\<forall>c \<in> set ''a/b.zip''. (of_char c :: nat) < 128"
    and n3: "\<forall>c \<in> set ''''. (of_char c :: nat) < 128"
    by simp_all
  have p0: "[] = [] \<or> (hd [] = CHR '';'' \<and> lower ''https'' \<in> set uses_params)"
    "\<forall>c \<in> set []. printable c \<and> c \<notin> set ''/?#''"
    by simp_all
  have uses: "lower ''https'' \<in> set uses_params" by code_simp
  have p1: "'';type=a'' = [] \<or> (hd '';type=a'' = CHR '';'' \<and> lower ''https'' \<in> set uses_params)"
    "\<forall>c \<in> set '';type=a''. printable c \<and> c \<notin> set ''/?#''"
    using uses by (simp_all add: printable_def)
  have q: "''?download=1'' = [] \<or> hd ''?download=1'' = CHR ''?'' \<or> hd ''?download=1'' = CHR ''#''"
    and f: "''#top'' = [] \<or> hd ''#top'' = CHR ''?'' \<or> hd ''#top'' = CHR ''#''"
    by simp_all
  have e1: "percent_encode ''File Name.zip'' = ''File%20Name.zip''"
    and e2: "percent_encode ''a/b.zip'' = ''a%2Fb.zip''"
    and e3: "percent_encode '''' = ''''"
    by code_simp+
  from url_filename_is_last_segment [OF s h d n1 p0 q]
       url_filename_is_last_segment [OF s h d n2 p1 f]
       url_filename_is_last_segment [OF s h d n3 p0 q]
  show ?thesis by (simp add: e1 e2 e3)
qed

subsection \<open>Videos\<close>

text \<open>
  \<^bold>\<open>Claim C7.\<close> Without \<^verbatim>\<open>yt_dlp\<close>, \<^verbatim>\<open>download_videos\<close> on a non-empty list of URLs returns
  normally, writes the warning and nothing else to the console, starts no network traffic
  and creates no file.
\<close>

theorem download_videos_without_yt_dlp:
  "urls \<noteq> [] \<Longrightarrow> download_videos None urls dest s = (res, s') \<Longrightarrow>
     res = Inr () \<and> stdout s' = stdout s @ [WarnNoYtDlp] \<and> requested s' = requested s
     \<and> (\<forall>p c. fs s' p = Some (File c) \<longrightarrow> fs s p = Some (File c))"
  by (auto simp: download_videos_def print_def)

theorem download_videos_without_yt_dlp_witness:
  "fst (download_videos None [''first'', ''second''] ''v'' (world_of [])) = Inr ()
   \<and> stdout (snd (download_videos None [''first'', ''second''] ''v'' (world_of []))) = [WarnNoYtDlp]
   \<and> requested (snd (download_videos None [''first'', ''second''] ''v'' (world_of []))) = []"
proof -
  let ?run = "download_videos None [''first'', ''second''] ''v'' (world_of [])"
  have ne: "[''first'', ''second''] \<noteq> []" by simp
  have run: "?run = (fst ?run, snd ?run)" by simp
  from download_videos_without_yt_dlp [OF ne run] show ?thesis by (simp add: world_of_def)
qed

text \<open>
  \<^bold>\<open>Claim C8.\<close> With \<^verbatim>\<open>yt_dlp\<close> and a destination folder that can be made,
  \<^verbatim>\<open>download_videos\<close> returns normally; it hands every URL of the list to \<^verbatim>\<open>yt_dlp\<close>, in
  order, whatever happened to the URLs before it; every URL that raises has its error line
  on the console, and every URL that yields a video has a file under the rendered output
  template.
\<close>

theorem download_videos_isolates_failures:
  assumes "makedirs dest s = (Inr (), s0)"
    and "download_videos (Some yt) urls dest s = (res, s')"
  shows "res = Inr () \<and> requested s' = requested s @ urls
       \<and> (\<forall>url \<in> set urls. \<forall>e. yt url = Raises e \<longrightarrow> ErrorVideo url e \<in> set (stdout s'))
       \<and> (\<forall>url \<in> set urls. \<forall>title ext content. yt url = Video title ext content \<longrightarrow>
            (\<exists>c. fs s' (render_outtmpl (os_path_join dest ''%(title)s.%(ext)s'') title ext)
                    = Some (File c)))"
proof -
  define opts where "opts = \<lparr>outtmpl = os_path_join dest ''%(title)s.%(ext)s'',
                                format = ''bestvideo+bestaudio/best'',
                                noplaylist = True,
                                quiet = False,
                                ignoreerrors = True,
                                merge_output_format = ''mp4''\<rparr>"
  from assms have res: "res = Inr ()" and s': "s' = video_loop yt opts urls s0"
    by (simp_all add: download_videos_def opts_def)
  have tmpl: "outtmpl opts = os_path_join dest ''%(title)s.%(ext)s''" by (simp add: opts_def)
  have "requested s' = requested s @ urls"
    using makedirs_ok(3) [OF assms(1)] by (simp add: s' video_loop_requested)
  moreover have "ErrorVideo url e \<in> set (stdout s')" if "url \<in> set urls" "yt url = Raises e" for url e
    using that by (simp add: s' video_loop_logs_error)
  moreover have "\<exists>c. fs s' (render_outtmpl (os_path_join dest ''%(title)s.%(ext)s'') title ext)
                    = Some (File c)"
    if "url \<in> set urls" "yt url = Video title ext content" for url title ext content
    using video_loop_saves [where yt = yt and opts = opts and s = s0, OF that] by (simp add: s' tmpl)
  ultimately show ?thesis using res by blast
qed

text \<open>The first URL raises, the second is saved.\<close>

theorem download_videos_isolates_failures_witness:
  "fst (download_videos (Some two_videos) [''first'', ''second''] ''v'' (world_of [])) = Inr ()
   \<and> requested (snd (download_videos (Some two_videos) [''first'', ''second''] ''v'' (world_of [])))
       = [''first'', ''second'']
   \<and> ErrorVideo ''first'' RuntimeError
       \<in> set (stdout (snd (download_videos (Some two_videos) [''first'', ''second''] ''v'' (world_of []))))
   \<and> (\<exists>c. fs (snd (download_videos (Some two_videos) [''first'', ''second''] ''v'' (world_of [])))
              ''v/clip.mp4'' = Some (File c))"
proof -
  let ?run = "download_videos (Some two_videos) [''first'', ''second''] ''v'' (world_of [])"
  have mk: "makedirs ''v'' (world_of []) = (Inr (), world_of [(''v'', Dir)])"
    by (simp add: makedirs_def world_of_def)
  have run: "?run = (fst ?run, snd ?run)" by simp
  have p: "render_outtmpl (os_path_join ''v'' ''%(title)s.%(ext)s'') ''clip'' ''mp4'' = ''v/clip.mp4''"
    by code_simp
  have a: "two_videos ''first'' = Raises RuntimeError"
    and b: "two_videos ''second'' = Video ''clip'' ''mp4'' ''data''"
    by (simp_all add: two_videos_def)
  from download_videos_isolates_failures [OF mk run] a b p
  show ?thesis by (simp add: world_of_def)
qed

text \<open>
  \<^bold>\<open>Claim C10.\<close> Without \<^verbatim>\<open>yt_dlp\<close>, \<^verbatim>\<open>download_videos\<close> leaves the file system as it is; in
  particular a destination folder that does not exist is not created, whereas with
  \<^verbatim>\<open>yt_dlp\<close> it is.
\<close>

theorem download_videos_unavailable_frame:
  "fs (snd (download_videos None urls dest s)) = fs s
   \<and> (fs s dest = None \<longrightarrow>
        fs (snd (download_videos None urls dest s)) dest = None
      \<and> fs (snd (download_videos (Some yt) [] dest s)) dest = Some Dir)"
  by (simp add: download_videos_def print_def makedirs_def)

theorem download_videos_unavailable_frame_witness:
  "fs (snd (download_videos None [''first'', ''second''] ''v'' (world_of []))) ''v'' = None
   \<and> fs (snd (download_videos (Some two_videos) [] ''v'' (world_of []))) ''v'' = Some Dir"
proof -
  have "fs (world_of []) ''v'' = None" by (simp add: world_of_def)
  with download_videos_unavailable_frame [of "[''first'', ''second'']" "''v''" "world_of []" two_videos]
  show ?thesis by blast
qed

end
